theory Spec2Isabelle
  imports Main
begin

section \<open>The base chessboard \<open>CBaseBoard\<close> (Code/BaseBoard.cpp)\<close>

text \<open>
  A shallow embedding of the move-table operations of \<open>CBaseBoard\<close>.

  \<^item> A C++ \<open>int\<close> is an \<^typ>\<open>int\<close>, an \<open>unsigned\<close> a \<^typ>\<open>nat\<close>; where the
    source converts between the two, the 32-bit conversion is written out
    (\<open>s32\<close>, \<open>u32\<close>).
  \<^item> A move table is an \<open>int list option\<close>: \<open>None\<close> is the null pointer
    (the primary table of an odd-sized board, the secondary table of an
    undirected board).
  \<^item> A failed \<open>assert\<close>, a read through a null table, a read or write outside
    a table and a division by zero are values of \<open>error\<close>; a member function
    returns \<open>error + result\<close>, and one that changes the board returns the new
    board.
\<close>

subsection \<open>Machine integers\<close>

definition s32 :: "int \<Rightarrow> int" where
  \<comment> \<open>conversion to a 32-bit \<open>int\<close>\<close>
  "s32 v = (v + 2147483648) mod 4294967296 - 2147483648"

definition u32 :: "int \<Rightarrow> int" where
  \<comment> \<open>conversion to a 32-bit \<open>unsigned\<close>\<close>
  "u32 v = v mod 4294967296"

subsection \<open>Data model\<close>

text \<open>
  Modelled from the spec: the constant \<open>UNUSED\<close> comes from Defines.h, which is
  not part of the sources; the specification gives the sentinel the value -1.
\<close>

definition UNUSED :: int where
  "UNUSED = -1"

datatype error = AssertionFailed | NullPointer | OutOfBounds | DivisionByZero

text \<open>
  Modelled from the spec: the class is declared in BaseBoard.h, which is not part
  of the sources. Its members are those that BaseBoard.cpp uses: the \<open>unsigned\<close>
  width, height and size (compared with \<open>unsigned\<close> loop counters, cast to
  \<open>int\<close> for range tests), and the two \<open>int\<close> arrays, a null pointer where
  the specification has the table absent. The random number generator
  \<open>m_cRandom\<close> takes no part in the operations modelled here.
\<close>

record CBaseBoard =
  m_nWidth :: nat
  m_nHeight :: nat
  m_nSize :: nat
  m_nMove :: "int list option"
  m_nMove2 :: "int list option"

text \<open>\<open>t[i]\<close> as an rvalue.\<close>

definition read_table :: "int list option \<Rightarrow> int \<Rightarrow> error + int" where
  "read_table t i =
     (case t of
        None \<Rightarrow> Inl NullPointer
      | Some xs \<Rightarrow> if 0 \<le> i \<and> i < int (length xs) then Inr (xs ! nat i) else Inl OutOfBounds)"

text \<open>\<open>t[i] = v\<close>, on an array that exists and through a pointer that may be null.\<close>

definition write_list :: "int list \<Rightarrow> int \<Rightarrow> int \<Rightarrow> error + int list" where
  "write_list xs i v =
     (if 0 \<le> i \<and> i < int (length xs) then Inr (xs[nat i := v]) else Inl OutOfBounds)"

definition write_table :: "int list option \<Rightarrow> int \<Rightarrow> int \<Rightarrow> error + int list option" where
  "write_table t i v =
     (case t of
        None \<Rightarrow> Inl NullPointer
      | Some xs \<Rightarrow> (case write_list xs i v of Inl e \<Rightarrow> Inl e | Inr ys \<Rightarrow> Inr (Some ys)))"

text \<open>Sequencing of fallible steps: the first error ends the call.\<close>

definition bind_err :: "error + 'a \<Rightarrow> ('a \<Rightarrow> error + 'b) \<Rightarrow> error + 'b" where
  "bind_err r f = (case r of Inl e \<Rightarrow> Inl e | Inr v \<Rightarrow> f v)"

subsection \<open>Constructors\<close>

text \<open>
  \<open>CBaseBoard(w, h)\<close>: the size is the \<open>unsigned\<close> product; the move table is
  created, all \<open>UNUSED\<close>, only when the size is even.
\<close>

definition new_board :: "nat \<Rightarrow> nat \<Rightarrow> CBaseBoard" where
  "new_board w h =
     (let n = (w * h) mod 4294967296 in
      \<lparr>m_nWidth = w, m_nHeight = h, m_nSize = n,
       m_nMove = (if even n then Some (replicate n UNUSED) else None),
       m_nMove2 = None\<rparr>)"

text \<open>\<open>CBaseBoard(move, w, h)\<close>: the first \<open>w*h\<close> entries of \<open>move\<close> are copied.\<close>

definition board_of_moves :: "int list \<Rightarrow> nat \<Rightarrow> nat \<Rightarrow> error + CBaseBoard" where
  "board_of_moves move w h =
     (let n = (w * h) mod 4294967296 in
      if even n then
        (if n \<le> length move then
           Inr \<lparr>m_nWidth = w, m_nHeight = h, m_nSize = n,
                m_nMove = Some (take n move), m_nMove2 = None\<rparr>
         else Inl OutOfBounds)
      else Inr \<lparr>m_nWidth = w, m_nHeight = h, m_nSize = n,
                 m_nMove = None, m_nMove2 = None\<rparr>)"

subsection \<open>Range tests and mode\<close>

definition CellIndexInRange :: "CBaseBoard \<Rightarrow> int \<Rightarrow> bool" where
  "CellIndexInRange b index \<longleftrightarrow> 0 \<le> index \<and> index < s32 (int (m_nSize b))"

definition InRangeX :: "CBaseBoard \<Rightarrow> int \<Rightarrow> bool" where
  "InRangeX b x \<longleftrightarrow> 0 \<le> x \<and> x < s32 (int (m_nWidth b))"

definition InRangeY :: "CBaseBoard \<Rightarrow> int \<Rightarrow> bool" where
  "InRangeY b y \<longleftrightarrow> 0 \<le> y \<and> y < s32 (int (m_nHeight b))"

definition IsUndirected :: "CBaseBoard \<Rightarrow> bool" where
  "IsUndirected b \<longleftrightarrow> m_nMove2 b = None"

definition IsDirected :: "CBaseBoard \<Rightarrow> bool" where
  "IsDirected b \<longleftrightarrow> \<not> IsUndirected b"

subsection \<open>Queries\<close>

text \<open>
  \<open>IsMove(i, j)\<close>: \<open>&&\<close> and \<open>||\<close> evaluate from the left and stop early, so the
  secondary table is read only when the primary slot of \<open>i\<close> does not match.
\<close>

definition IsMove :: "CBaseBoard \<Rightarrow> int \<Rightarrow> int \<Rightarrow> error + bool" where
  "IsMove b i j =
     (if CellIndexInRange b i \<and> CellIndexInRange b j then
        bind_err (read_table (m_nMove b) i) (\<lambda>a.
          if a = j then Inr True
          else bind_err (read_table (m_nMove2 b) i) (\<lambda>c.
            if c = j then Inr True
            else bind_err (read_table (m_nMove b) j) (\<lambda>d.
              if d = i then Inr True
              else bind_err (read_table (m_nMove2 b) j) (\<lambda>e. Inr (e = i)))))
      else Inr False)"

text \<open>\<open>IsUnused(int index)\<close>, with its assertion as the source has it.\<close>

definition IsUnused :: "CBaseBoard \<Rightarrow> int \<Rightarrow> error + bool" where
  "IsUnused b index =
     (if \<not> IsDirected b then Inl AssertionFailed
      else if CellIndexInRange b index
        then bind_err (read_table (m_nMove b) index) (\<lambda>v. Inr (v = UNUSED))
        else Inr False)"

text \<open>\<open>operator[](int index)\<close>, which the specification also calls \<open>GetMove\<close>.\<close>

definition operator_index :: "CBaseBoard \<Rightarrow> int \<Rightarrow> error + int" where
  "operator_index b index =
     (if \<not> IsUndirected b then Inl AssertionFailed
      else if CellIndexInRange b index then read_table (m_nMove b) index
      else Inr UNUSED)"

subsection \<open>Move insertion and deletion\<close>

definition InsertUndirectedMove :: "CBaseBoard \<Rightarrow> int \<Rightarrow> int \<Rightarrow> error + (bool \<times> CBaseBoard)" where
  "InsertUndirectedMove b src dest =
     (if \<not> IsUndirected b then Inl AssertionFailed
      else bind_err (read_table (m_nMove b) src) (\<lambda>a.
        if a < 0 then
          bind_err (write_table (m_nMove b) src dest) (\<lambda>t. Inr (True, b\<lparr>m_nMove := t\<rparr>))
        else bind_err (read_table (m_nMove b) dest) (\<lambda>c.
          if c < 0 then
            bind_err (write_table (m_nMove b) dest src) (\<lambda>t. Inr (True, b\<lparr>m_nMove := t\<rparr>))
          else Inr (False, b))))"

text \<open>
  The two \<open>if / else if / else return false\<close> blocks of \<open>InsertDirectedMove\<close>
  are the same code at two cells: the primary slot of \<open>cell\<close> if it is negative,
  else the secondary one, else nothing (\<open>None\<close>: the \<open>return false\<close>).
\<close>

definition InsertDirectedMove_slot :: "CBaseBoard \<Rightarrow> int \<Rightarrow> int \<Rightarrow> error + CBaseBoard option" where
  "InsertDirectedMove_slot b cell v =
     bind_err (read_table (m_nMove b) cell) (\<lambda>a.
       if a < 0 then
         bind_err (write_table (m_nMove b) cell v) (\<lambda>t. Inr (Some (b\<lparr>m_nMove := t\<rparr>)))
       else bind_err (read_table (m_nMove2 b) cell) (\<lambda>c.
         if c < 0 then
           bind_err (write_table (m_nMove2 b) cell v) (\<lambda>t. Inr (Some (b\<lparr>m_nMove2 := t\<rparr>)))
         else Inr None))"

definition InsertDirectedMove :: "CBaseBoard \<Rightarrow> int \<Rightarrow> int \<Rightarrow> error + (bool \<times> CBaseBoard)" where
  "InsertDirectedMove b src dest =
     (if \<not> IsDirected b then Inl AssertionFailed
      else bind_err (InsertDirectedMove_slot b src dest) (\<lambda>r1.
        case r1 of
          None \<Rightarrow> Inr (False, b)
        | Some b1 \<Rightarrow> bind_err (InsertDirectedMove_slot b1 dest src) (\<lambda>r2.
            case r2 of
              None \<Rightarrow> Inr (False, b1)
            | Some b2 \<Rightarrow> Inr (True, b2))))"

text \<open>\<open>if(t[i] == v) t[i] = UNUSED;\<close> on the primary or the secondary table.\<close>

definition clear_if :: "int list option \<Rightarrow> int \<Rightarrow> int \<Rightarrow> error + int list option" where
  "clear_if t i v =
     bind_err (read_table t i) (\<lambda>a. if a = v then write_table t i UNUSED else Inr t)"

definition DeleteMove :: "CBaseBoard \<Rightarrow> int \<Rightarrow> int \<Rightarrow> error + (bool \<times> CBaseBoard)" where
  "DeleteMove b src dest =
     bind_err (clear_if (m_nMove b) src dest) (\<lambda>t1.
     bind_err (clear_if t1 dest src) (\<lambda>t2.
       let b1 = b\<lparr>m_nMove := t2\<rparr> in
       if IsDirected b1 then
         bind_err (IsMove b1 src dest) (\<lambda>there.
           if \<not> there then Inr (False, b1)
           else bind_err (clear_if (m_nMove2 b1) src dest) (\<lambda>u1.
                bind_err (clear_if u1 dest src) (\<lambda>u2.
                  Inr (True, b1\<lparr>m_nMove2 := u2\<rparr>))))
       else Inr (True, b1)))"

subsection \<open>Knight's moves\<close>

text \<open>
  Modelled from the spec: \<open>MoveDelta\<close> is declared in a header that is not part of
  the sources; BaseBoard.cpp reads its \<open>first\<close> and \<open>second\<close> as \<open>int\<close> offsets.
\<close>

type_synonym MoveDelta = "int \<times> int"

text \<open>
  Modelled from the spec: \<open>g_vecDeltas\<close> is declared \<open>extern\<close> in BaseBoard.cpp and
  defined in a file that is not part of the sources. The specification fixes it
  as the 8 knight-move offsets \<open>(dx, dy)\<close> in the order of the \<open>GetMoveIndex\<close>
  table (index 0 is \<open>(2,-1)\<close>, index 1 is \<open>(1,-2)\<close>, ..., index 7 is \<open>(2,1)\<close>).
\<close>

definition g_vecDeltas :: "MoveDelta list" where
  "g_vecDeltas = [(2, -1), (1, -2), (-1, -2), (-2, -1), (-2, 1), (-1, 2), (1, 2), (2, 1)]"

text \<open>
  \<open>GetDest(i, delta)\<close>. In \<open>i%m_nWidth + delta.first\<close> the \<open>int\<close> operands are
  converted to \<open>unsigned\<close>, the sum is \<open>unsigned\<close> and is converted back when it
  is stored in \<open>int x\<close>; likewise for the other expressions.
\<close>

definition GetDest :: "CBaseBoard \<Rightarrow> int \<Rightarrow> MoveDelta \<Rightarrow> error + int" where
  "GetDest b i delta =
     (if m_nWidth b = 0 then Inl DivisionByZero
      else
        let w = int (m_nWidth b);
            x = s32 (u32 (u32 i mod w + u32 (fst delta)));
            y = s32 (u32 (u32 i div w + u32 (snd delta)))
        in if InRangeX b x \<and> InRangeY b y then Inr (s32 (u32 (u32 y * w + u32 x)))
           else Inr UNUSED)"

definition GetMoveIndex :: "CBaseBoard \<Rightarrow> int \<Rightarrow> int \<Rightarrow> error + int" where
  "GetMoveIndex b src dest =
     (if m_nWidth b = 0 then Inl DivisionByZero
      else
        let w = int (m_nWidth b);
            dx = s32 (u32 (u32 dest mod w - u32 src mod w));
            dy = s32 (u32 (u32 dest div w - u32 src div w))
        in if dx = -2 then (if dy = -1 then Inr 3 else if dy = 1 then Inr 4 else Inr UNUSED)
           else if dx = -1 then (if dy = -2 then Inr 2 else if dy = 2 then Inr 5 else Inr UNUSED)
           else if dx = 1 then (if dy = -2 then Inr 1 else if dy = 2 then Inr 6 else Inr UNUSED)
           else if dx = 2 then (if dy = -1 then Inr 0 else if dy = 1 then Inr 7 else Inr UNUSED)
           else Inr UNUSED)"

subsection \<open>Tour and tourney tests\<close>

text \<open>
  The \<open>while\<close> loop of \<open>IsTour\<close>; its state is \<open>prev\<close>, \<open>cur\<close> and \<open>count\<close>.
  The \<open>return false\<close> inside the loop ends the call.
\<close>

function IsTour_loop :: "CBaseBoard \<Rightarrow> int \<Rightarrow> int \<Rightarrow> nat \<Rightarrow> error + bool" where
  "IsTour_loop b prev cur count =
     (if count < m_nSize b \<and> CellIndexInRange b cur \<and> cur \<noteq> 0 then
        (case read_table (m_nMove b) cur of
           Inl e \<Rightarrow> Inl e
         | Inr dest0 \<Rightarrow>
             if dest0 = prev then
               (if IsUndirected b then Inr False
                else (case read_table (m_nMove2 b) cur of
                        Inl e \<Rightarrow> Inl e
                      | Inr c \<Rightarrow> IsTour_loop b cur c (count + 1)))
             else IsTour_loop b cur dest0 (count + 1))
      else Inr (count = m_nSize b \<and> cur = 0))"
  by pat_completeness auto
termination
  by (relation "measure (\<lambda>(b, prev, cur, count). m_nSize b - count)") auto

definition IsTour :: "CBaseBoard \<Rightarrow> error + bool" where
  "IsTour b = bind_err (read_table (m_nMove b) 0) (\<lambda>cur. IsTour_loop b 0 cur 1)"

text \<open>\<open>++count[k]\<close>.\<close>

definition incr :: "int list \<Rightarrow> nat \<Rightarrow> int list" where
  "incr count k = count[k := count ! k + 1]"

text \<open>
  The two counting loops of \<open>IsTourney\<close>, over the indices that are left; the
  loop condition is \<open>i<m_nSize && bAllCellsUsed\<close>.
\<close>

fun IsTourney_undirected_loop ::
  "CBaseBoard \<Rightarrow> nat list \<Rightarrow> int list \<Rightarrow> bool \<Rightarrow> error + (int list \<times> bool)" where
  "IsTourney_undirected_loop b [] count bAllCellsUsed = Inr (count, bAllCellsUsed)"
| "IsTourney_undirected_loop b (i # rest) count bAllCellsUsed =
     (if bAllCellsUsed then
        (case read_table (m_nMove b) (int i) of
           Inl e \<Rightarrow> Inl e
         | Inr v \<Rightarrow>
             if CellIndexInRange b v
             then IsTourney_undirected_loop b rest (incr (incr count i) (nat v)) bAllCellsUsed
             else IsTourney_undirected_loop b rest count False)
      else Inr (count, bAllCellsUsed))"

fun IsTourney_directed_loop ::
  "CBaseBoard \<Rightarrow> nat list \<Rightarrow> int list \<Rightarrow> bool \<Rightarrow> error + (int list \<times> bool)" where
  "IsTourney_directed_loop b [] count bAllCellsUsed = Inr (count, bAllCellsUsed)"
| "IsTourney_directed_loop b (i # rest) count bAllCellsUsed =
     (if bAllCellsUsed then
        (case read_table (m_nMove b) (int i) of
           Inl e \<Rightarrow> Inl e
         | Inr v \<Rightarrow>
            (case read_table (m_nMove2 b) (int i) of
               Inl e \<Rightarrow> Inl e
             | Inr v2 \<Rightarrow>
                 let count1 = (if CellIndexInRange b v then incr count (nat v) else count);
                     used1 = (if CellIndexInRange b v then bAllCellsUsed else False);
                     count2 = (if CellIndexInRange b v2 then incr count1 (nat v2) else count1);
                     used2 = (if CellIndexInRange b v2 then used1 else False)
                 in IsTourney_directed_loop b rest count2 used2))
      else Inr (count, bAllCellsUsed))"

definition IsTourney :: "CBaseBoard \<Rightarrow> error + bool" where
  "IsTourney b =
     (let n = m_nSize b; count0 = replicate n 0 in
      bind_err
        (if IsUndirected b then IsTourney_undirected_loop b [0..<n] count0 True
         else IsTourney_directed_loop b [0..<n] count0 True)
        (\<lambda>(count, bAllCellsUsed).
           if \<not> bAllCellsUsed then Inr False
           else Inr (foldl (\<lambda>bDegree2 i. if count ! i \<noteq> 2 then False else bDegree2)
                       True [0..<n])))"

subsection \<open>Directed and undirected boards\<close>

text \<open>The second loop of \<open>MakeDirected\<close>: \<open>m_nMove2[m_nMove[i]] = i\<close>.\<close>

fun MakeDirected_loop :: "CBaseBoard \<Rightarrow> nat list \<Rightarrow> int list \<Rightarrow> error + int list" where
  "MakeDirected_loop b [] m2 = Inr m2"
| "MakeDirected_loop b (i # rest) m2 =
     (case read_table (m_nMove b) (int i) of
        Inl e \<Rightarrow> Inl e
      | Inr v \<Rightarrow>
          if CellIndexInRange b v then MakeDirected_loop b rest (m2[nat v := s32 (int i)])
          else MakeDirected_loop b rest m2)"

definition MakeDirected :: "CBaseBoard \<Rightarrow> error + CBaseBoard" where
  "MakeDirected b =
     (if IsUndirected b then
        bind_err (MakeDirected_loop b [0..<m_nSize b] (replicate (m_nSize b) UNUSED))
          (\<lambda>m2. Inr (b\<lparr>m_nMove2 := Some m2\<rparr>))
      else Inr b)"

text \<open>
  The inner \<open>while\<close> loop of \<open>MakeUndirected\<close>. Nothing in the loop bounds the
  number of its iterations, so the model is a partial function: \<open>None\<close> is the
  loop that never ends. It returns \<open>temp\<close>, \<open>prev\<close> and \<open>cur\<close> as they are when
  the loop is left. In \<open>cur != start\<close> the \<open>int\<close> is converted to \<open>unsigned\<close>.
\<close>

partial_function (option) MakeUndirected_walk ::
  "CBaseBoard \<Rightarrow> nat \<Rightarrow> int list \<Rightarrow> int \<Rightarrow> int \<Rightarrow> (error + (int list \<times> int \<times> int)) option" where
  "MakeUndirected_walk b start temp prev cur =
     (if CellIndexInRange b cur \<and> u32 cur \<noteq> int start then
        (case write_list temp prev cur of
           Inl e \<Rightarrow> Some (Inl e)
         | Inr temp1 \<Rightarrow>
            (case read_table (m_nMove b) cur of
               Inl e \<Rightarrow> Some (Inl e)
             | Inr a \<Rightarrow>
                 if a = prev then
                   (case read_table (m_nMove2 b) cur of
                      Inl e \<Rightarrow> Some (Inl e)
                    | Inr dest0 \<Rightarrow> MakeUndirected_walk b start temp1 cur dest0)
                 else MakeUndirected_walk b start temp1 cur a))
      else Some (Inr (temp, prev, cur)))"

declare MakeUndirected_walk.simps [code]

text \<open>The \<open>for\<close> loop over \<open>start\<close>, over the indices that are left.\<close>

fun MakeUndirected_loop ::
  "CBaseBoard \<Rightarrow> nat list \<Rightarrow> int list \<Rightarrow> (error + int list) option" where
  "MakeUndirected_loop b [] temp = Some (Inr temp)"
| "MakeUndirected_loop b (start # rest) temp =
     (if temp ! start = UNUSED then
        (case read_table (m_nMove b) (int start) of
           Inl e \<Rightarrow> Some (Inl e)
         | Inr cur0 \<Rightarrow>
            (case MakeUndirected_walk b start temp (s32 (int start)) cur0 of
               None \<Rightarrow> None
             | Some (Inl e) \<Rightarrow> Some (Inl e)
             | Some (Inr (temp1, prev, cur)) \<Rightarrow>
                 if CellIndexInRange b prev \<and> CellIndexInRange b cur
                 then MakeUndirected_loop b rest (temp1[nat prev := cur])
                 else MakeUndirected_loop b rest temp1))
      else MakeUndirected_loop b rest temp)"

definition MakeUndirected :: "CBaseBoard \<Rightarrow> (error + CBaseBoard) option" where
  "MakeUndirected b =
     (if IsDirected b then
        (case IsTourney b of
           Inl e \<Rightarrow> Some (Inl e)
         | Inr False \<Rightarrow> Some (Inr b)
         | Inr True \<Rightarrow>
            (case MakeUndirected_loop b [0..<m_nSize b] (replicate (m_nSize b) UNUSED) of
               None \<Rightarrow> None
             | Some (Inl e) \<Rightarrow> Some (Inl e)
             | Some (Inr temp) \<Rightarrow> Some (Inr (b\<lparr>m_nMove := Some temp, m_nMove2 := None\<rparr>))))
      else Some (Inr b))"

subsection \<open>Well-formed boards\<close>

text \<open>
  The boards the theorems speak about: the size is the product of the
  dimensions and fits an \<open>int\<close>, each table that exists has one entry per cell,
  and an entry is \<open>UNUSED\<close> or not negative (the specification's data model: a
  destination cell or the sentinel).
\<close>

definition wf_table :: "nat \<Rightarrow> int list \<Rightarrow> bool" where
  "wf_table n xs \<longleftrightarrow> length xs = n \<and> list_all (\<lambda>v. v = UNUSED \<or> 0 \<le> v) xs"

definition wf_board :: "CBaseBoard \<Rightarrow> bool" where
  "wf_board b \<longleftrightarrow>
     m_nSize b = m_nWidth b * m_nHeight b \<and> m_nSize b < 2147483648 \<and>
     (case m_nMove b of None \<Rightarrow> False | Some xs \<Rightarrow> wf_table (m_nSize b) xs) \<and>
     (case m_nMove2 b of None \<Rightarrow> True | Some ys \<Rightarrow> wf_table (m_nSize b) ys)"

text \<open>The specification's valid cell index: \<open>0 \<le> index < n\<close>.\<close>

definition valid_cell :: "CBaseBoard \<Rightarrow> int \<Rightarrow> bool" where
  "valid_cell b i \<longleftrightarrow> 0 \<le> i \<and> i < int (m_nSize b)"

subsection \<open>Notions of the specification\<close>

text \<open>
  A cell has a free slot when its primary or its secondary entry is \<open>UNUSED\<close>.
\<close>

definition free_slot :: "CBaseBoard \<Rightarrow> int \<Rightarrow> bool" where
  "free_slot b i \<longleftrightarrow>
     read_table (m_nMove b) i = Inr UNUSED \<or> read_table (m_nMove2 b) i = Inr UNUSED"

text \<open>
  The primary table after every slot at \<open>src\<close> or \<open>dest\<close> that equals the other
  endpoint has been cleared.
\<close>

definition cleared_primary :: "int list \<Rightarrow> int \<Rightarrow> int \<Rightarrow> int list" where
  "cleared_primary xs src dest =
     map (\<lambda>k. if (int k = src \<and> xs ! k = dest) \<or> (int k = dest \<and> xs ! k = src) then UNUSED
               else xs ! k) [0..<length xs]"

text \<open>
  The coordinates of a cell (\<open>index = y*w + x\<close>), the displacement between two
  cells, and the fixed table of the specification that gives each knight-move
  displacement its index.
\<close>

definition displacement :: "CBaseBoard \<Rightarrow> int \<Rightarrow> int \<Rightarrow> MoveDelta" where
  "displacement b src dest =
     (dest mod int (m_nWidth b) - src mod int (m_nWidth b),
      dest div int (m_nWidth b) - src div int (m_nWidth b))"

definition canonical_move_index :: "MoveDelta \<Rightarrow> int" where
  "canonical_move_index d =
     (if d = (-2, -1) then 3 else if d = (-2, 1) then 4
      else if d = (-1, -2) then 2 else if d = (-1, 2) then 5
      else if d = (1, -2) then 1 else if d = (1, 2) then 6
      else if d = (2, -1) then 0 else if d = (2, 1) then 7
      else UNUSED)"

text \<open>
  The entries of the tables of a board, each with the cell whose slot holds it:
  those of the primary table and, on a directed board, those of the secondary
  table. The degree of a cell counted over both endpoints of every entry, and
  counted over the destinations only.
\<close>

definition table_entries :: "CBaseBoard \<Rightarrow> (nat \<times> int) list" where
  "table_entries b =
     (case m_nMove b of None \<Rightarrow> [] | Some xs \<Rightarrow> zip [0..<length xs] xs) @
     (case m_nMove2 b of None \<Rightarrow> [] | Some ys \<Rightarrow> zip [0..<length ys] ys)"

definition all_entries_valid :: "CBaseBoard \<Rightarrow> bool" where
  "all_entries_valid b \<longleftrightarrow> list_all (\<lambda>(i, v). valid_cell b v) (table_entries b)"

definition degree_both_endpoints :: "CBaseBoard \<Rightarrow> int \<Rightarrow> nat" where
  "degree_both_endpoints b c =
     count_list (map (\<lambda>(i, v). int i) (table_entries b)) c +
     count_list (map snd (table_entries b)) c"

definition degree_destinations :: "CBaseBoard \<Rightarrow> int \<Rightarrow> nat" where
  "degree_destinations b c = count_list (map snd (table_entries b)) c"

text \<open>
  The walk of the tour test: from \<open>cur\<close>, reached from \<open>prev\<close>, the next cell
  is the one the primary slot of \<open>cur\<close> names, or on a directed board, when that
  is \<open>prev\<close>, the one the secondary slot names. \<open>walk_cells b k prev cur\<close> lists
  the cells of at most \<open>k\<close> steps of it, ending early at a cell that is not
  valid. \<open>tour_walk\<close> is the walk of \<open>n\<close> steps that leaves cell 0 by its primary
  slot: the cells visited after cell 0.
\<close>

definition next_cell :: "CBaseBoard \<Rightarrow> int \<Rightarrow> int \<Rightarrow> int" where
  "next_cell b prev cur =
     (case m_nMove b of
        None \<Rightarrow> UNUSED
      | Some xs \<Rightarrow>
         (case m_nMove2 b of
            None \<Rightarrow> xs ! nat cur
          | Some ys \<Rightarrow> if xs ! nat cur = prev then ys ! nat cur else xs ! nat cur))"

fun walk_cells :: "CBaseBoard \<Rightarrow> nat \<Rightarrow> int \<Rightarrow> int \<Rightarrow> int list" where
  "walk_cells b 0 prev cur = []"
| "walk_cells b (Suc k) prev cur =
     cur # (if valid_cell b cur then walk_cells b k cur (next_cell b prev cur) else [])"

definition tour_walk :: "CBaseBoard \<Rightarrow> int list" where
  "tour_walk b =
     (case m_nMove b of None \<Rightarrow> [] | Some xs \<Rightarrow> walk_cells b (m_nSize b) 0 (xs ! 0))"

text \<open>
  The moves form a single Hamiltonian cycle through all cells: the walk makes
  \<open>n\<close> steps, visits no cell twice, stays on the board and ends at cell 0.
\<close>

definition hamiltonian_cycle :: "CBaseBoard \<Rightarrow> bool" where
  "hamiltonian_cycle b \<longleftrightarrow>
     length (tour_walk b) = m_nSize b \<and> distinct (tour_walk b) \<and>
     list_all (valid_cell b) (tour_walk b) \<and> last (tour_walk b) = 0"

text \<open>The table of the cycle \<open>0 \<rightarrow> 1 \<rightarrow> \<dots> \<rightarrow> n-1 \<rightarrow> 0\<close>.\<close>

definition cycle_table :: "nat \<Rightarrow> int list" where
  "cycle_table n = map (\<lambda>i. int ((i + 1) mod n)) [0..<n]"

text \<open>
  Following a table from a cell: the entry of its slot; a value that is no index
  of the table stays where it is.
\<close>

definition follow :: "int list \<Rightarrow> int \<Rightarrow> int" where
  "follow xs c = (if 0 \<le> c \<and> c < int (length xs) then xs ! nat c else c)"

text \<open>
  The undirected edges a board records: one for every table entry that names a
  valid cell, between the cell of the slot and the cell named.
\<close>

definition recorded_edges :: "CBaseBoard \<Rightarrow> int set set" where
  "recorded_edges b =
     (\<lambda>(i, v). {int i, v}) ` set (filter (\<lambda>(i, v). valid_cell b v) (table_entries b))"

subsection \<open>Some boards\<close>

text \<open>
  The 2 by 2 and the 3 by 2 board as the constructor leaves them, and the
  undirected and the directed boards of 2 by 2 cells with given tables.
\<close>

definition board_2x2 :: CBaseBoard where
  "board_2x2 = new_board 2 2"

definition board_3x2 :: CBaseBoard where
  "board_3x2 = new_board 3 2"

text \<open>The undirected board of \<open>w\<close> by \<open>h\<close> cells whose primary table is the cycle.\<close>

definition cycle_board :: "nat \<Rightarrow> nat \<Rightarrow> CBaseBoard" where
  "cycle_board w h =
     \<lparr>m_nWidth = w, m_nHeight = h, m_nSize = w * h,
      m_nMove = Some (cycle_table (w * h)), m_nMove2 = None\<rparr>"

definition undirected_2x2 :: "int list \<Rightarrow> CBaseBoard" where
  "undirected_2x2 xs =
     \<lparr>m_nWidth = 2, m_nHeight = 2, m_nSize = 4, m_nMove = Some xs, m_nMove2 = None\<rparr>"

definition directed_2x2 :: "int list \<Rightarrow> int list \<Rightarrow> CBaseBoard" where
  "directed_2x2 xs ys =
     \<lparr>m_nWidth = 2, m_nHeight = 2, m_nSize = 4, m_nMove = Some xs, m_nMove2 = Some ys\<rparr>"

section \<open>Basic facts\<close>

lemma s32_small: "0 \<le> v \<Longrightarrow> v < 2147483648 \<Longrightarrow> s32 v = v"
  by (simp add: s32_def)

lemma s32_le: "0 \<le> v \<Longrightarrow> s32 v \<le> v"
proof -
  assume "0 \<le> v"
  have "(v + 2147483648) mod 4294967296 \<le> v + 2147483648"
    using \<open>0 \<le> v\<close> by (intro zmod_le_nonneg_dividend) simp
  then show ?thesis by (simp add: s32_def)
qed

lemma CellIndexInRange_imp_valid: "CellIndexInRange b i \<Longrightarrow> valid_cell b i"
  using s32_le [of "int (m_nSize b)"] by (simp add: CellIndexInRange_def valid_cell_def)

lemma CellIndexInRange_iff_valid:
  "m_nSize b < 2147483648 \<Longrightarrow> CellIndexInRange b i \<longleftrightarrow> valid_cell b i"
  by (simp add: CellIndexInRange_def valid_cell_def s32_small)

lemma wf_board_has_primary: "wf_board b \<Longrightarrow> \<exists>xs. m_nMove b = Some xs"
  by (cases "m_nMove b") (auto simp: wf_board_def)

lemma wf_board_has_secondary:
  "wf_board b \<Longrightarrow> IsDirected b \<Longrightarrow> \<exists>ys. m_nMove2 b = Some ys"
  by (cases "m_nMove2 b") (auto simp: IsDirected_def IsUndirected_def)

lemma wf_board_primaryD:
  "wf_board b \<Longrightarrow> m_nMove b = Some xs \<Longrightarrow>
     length xs = m_nSize b \<and> (\<forall>i<m_nSize b. xs ! i = UNUSED \<or> 0 \<le> xs ! i)"
  by (auto simp: wf_board_def wf_table_def list_all_length)

lemma wf_board_secondaryD:
  "wf_board b \<Longrightarrow> m_nMove2 b = Some ys \<Longrightarrow>
     length ys = m_nSize b \<and> (\<forall>i<m_nSize b. ys ! i = UNUSED \<or> 0 \<le> ys ! i)"
  by (auto simp: wf_board_def wf_table_def list_all_length)

lemma wf_CellIndexInRange: "wf_board b \<Longrightarrow> CellIndexInRange b i \<longleftrightarrow> valid_cell b i"
  by (simp add: wf_board_def CellIndexInRange_iff_valid)

lemma neg_iff_UNUSED: "v = UNUSED \<or> 0 \<le> v \<Longrightarrow> v < 0 \<longleftrightarrow> v = UNUSED"
  by (auto simp: UNUSED_def)

lemma read_table_Some:
  "0 \<le> i \<Longrightarrow> i < int (length xs) \<Longrightarrow> read_table (Some xs) i = Inr (xs ! nat i)"
  by (simp add: read_table_def)

lemma write_table_Some:
  "0 \<le> i \<Longrightarrow> i < int (length xs) \<Longrightarrow> write_table (Some xs) i v = Inr (Some (xs[nat i := v]))"
  by (simp add: write_table_def write_list_def)

lemma valid_cell_table:
  "valid_cell b i \<Longrightarrow> length xs = m_nSize b \<Longrightarrow>
     0 \<le> i \<and> i < int (length xs) \<and> nat i < m_nSize b"
  by (auto simp: valid_cell_def)

lemma CellIndexInRange_primary_update [simp]:
  "CellIndexInRange (b\<lparr>m_nMove := t\<rparr>) i = CellIndexInRange b i"
  by (simp add: CellIndexInRange_def)

lemma CellIndexInRange_secondary_update [simp]:
  "CellIndexInRange (b\<lparr>m_nMove2 := t\<rparr>) i = CellIndexInRange b i"
  by (simp add: CellIndexInRange_def)

section \<open>Concrete boards\<close>

lemma board_2x2_eq:
  "board_2x2 = \<lparr>m_nWidth = 2, m_nHeight = 2, m_nSize = 4,
      m_nMove = Some [UNUSED, UNUSED, UNUSED, UNUSED], m_nMove2 = None\<rparr>"
proof -
  have "replicate 4 UNUSED = [UNUSED, UNUSED, UNUSED, UNUSED]"
    by (simp add: numeral_eq_Suc)
  then show ?thesis by (simp add: board_2x2_def new_board_def)
qed

lemma wf_table_4: "wf_table 4 [a, b, c, d] \<longleftrightarrow>
    (a = UNUSED \<or> 0 \<le> a) \<and> (b = UNUSED \<or> 0 \<le> b) \<and> (c = UNUSED \<or> 0 \<le> c) \<and> (d = UNUSED \<or> 0 \<le> d)"
  by (simp add: wf_table_def)

lemma wf_board_2x2: "wf_board board_2x2"
  by (simp add: board_2x2_eq wf_board_def wf_table_4)

lemma wf_directed_2x2:
  "wf_table 4 xs \<Longrightarrow> wf_table 4 ys \<Longrightarrow> wf_board (directed_2x2 xs ys)"
  by (simp add: directed_2x2_def wf_board_def)

lemma IsDirected_directed_2x2: "IsDirected (directed_2x2 xs ys)"
  by (simp add: directed_2x2_def IsDirected_def IsUndirected_def)

lemma IsUndirected_board_2x2: "IsUndirected board_2x2"
  by (simp add: board_2x2_eq IsUndirected_def)

lemma valid_cell_2x2: "valid_cell board_2x2 i \<longleftrightarrow> 0 \<le> i \<and> i < 4"
  by (simp add: board_2x2_eq valid_cell_def)

lemma valid_cell_directed_2x2: "valid_cell (directed_2x2 xs ys) i \<longleftrightarrow> 0 \<le> i \<and> i < 4"
  by (simp add: directed_2x2_def valid_cell_def)

section \<open>Insertion\<close>

lemma InsertUndirectedMove_wf:
  assumes "wf_board b" "IsUndirected b" "valid_cell b src" "valid_cell b dest"
    and "m_nMove b = Some xs"
  shows "InsertUndirectedMove b src dest =
     (if xs ! nat src = UNUSED then Inr (True, b\<lparr>m_nMove := Some (xs[nat src := dest])\<rparr>)
      else if xs ! nat dest = UNUSED then Inr (True, b\<lparr>m_nMove := Some (xs[nat dest := src])\<rparr>)
      else Inr (False, b))"
proof -
  from assms(1,5) have xs: "length xs = m_nSize b"
    "\<forall>i<m_nSize b. xs ! i = UNUSED \<or> 0 \<le> xs ! i"
    by (auto dest: wf_board_primaryD)
  note r = valid_cell_table [OF assms(3) xs(1)] valid_cell_table [OF assms(4) xs(1)]
  have "xs ! nat src < 0 \<longleftrightarrow> xs ! nat src = UNUSED" "xs ! nat dest < 0 \<longleftrightarrow> xs ! nat dest = UNUSED"
    using xs(2) r by (simp_all add: neg_iff_UNUSED)
  then show ?thesis
    using assms(2,5) r
    by (simp add: InsertUndirectedMove_def bind_err_def read_table_Some write_table_Some)
qed

text \<open>
  C7. On an undirected board, for valid cells \<open>src\<close> and \<open>dest\<close>,
  \<open>InsertUndirectedMove(src, dest)\<close> sets \<open>m[src] = dest\<close> and returns true if
  \<open>m[src]\<close> is \<open>UNUSED\<close>; otherwise it sets \<open>m[dest] = src\<close> and returns true if
  \<open>m[dest]\<close> is \<open>UNUSED\<close>; otherwise it returns false and the board is as it was.
  A successful call writes one slot of the primary table and leaves every other
  slot, and the rest of the board, unchanged.
\<close>

theorem InsertUndirectedMove_policy:
  assumes "wf_board b" "IsUndirected b" "valid_cell b src" "valid_cell b dest"
    and "m_nMove b = Some xs"
  shows "InsertUndirectedMove b src dest =
     (if xs ! nat src = UNUSED then Inr (True, b\<lparr>m_nMove := Some (xs[nat src := dest])\<rparr>)
      else if xs ! nat dest = UNUSED then Inr (True, b\<lparr>m_nMove := Some (xs[nat dest := src])\<rparr>)
      else Inr (False, b)) \<and>
     (\<forall>b'. InsertUndirectedMove b src dest = Inr (True, b') \<longrightarrow>
        (\<exists>k v. k < length xs \<and> b' = b\<lparr>m_nMove := Some (xs[k := v])\<rparr> \<and>
               (\<forall>j. j \<noteq> k \<longrightarrow> xs[k := v] ! j = xs ! j)))"
proof -
  from assms(1,5) have lx: "length xs = m_nSize b" by (auto dest: wf_board_primaryD)
  note r = valid_cell_table [OF assms(3) lx] valid_cell_table [OF assms(4) lx]
  have k: "nat src < length xs" "nat dest < length xs" using r lx by simp_all
  note eq = InsertUndirectedMove_wf [OF assms]
  show ?thesis
  proof (intro conjI allI impI)
    show "InsertUndirectedMove b src dest =
     (if xs ! nat src = UNUSED then Inr (True, b\<lparr>m_nMove := Some (xs[nat src := dest])\<rparr>)
      else if xs ! nat dest = UNUSED then Inr (True, b\<lparr>m_nMove := Some (xs[nat dest := src])\<rparr>)
      else Inr (False, b))" by (rule eq)
  next
    fix b' assume "InsertUndirectedMove b src dest = Inr (True, b')"
    then consider "b' = b\<lparr>m_nMove := Some (xs[nat src := dest])\<rparr>"
      | "b' = b\<lparr>m_nMove := Some (xs[nat dest := src])\<rparr>"
      unfolding eq by (auto split: if_splits)
    then show "\<exists>k v. k < length xs \<and> b' = b\<lparr>m_nMove := Some (xs[k := v])\<rparr> \<and>
               (\<forall>j. j \<noteq> k \<longrightarrow> xs[k := v] ! j = xs ! j)"
    proof cases
      case 1
      with k(1) show ?thesis by (intro exI [of _ "nat src"] exI [of _ dest]) simp
    next
      case 2
      with k(2) show ?thesis by (intro exI [of _ "nat dest"] exI [of _ src]) simp
    qed
  qed
qed

theorem InsertUndirectedMove_policy_witness:
  "wf_board board_2x2 \<and> IsUndirected board_2x2 \<and> valid_cell board_2x2 0 \<and>
   valid_cell board_2x2 1 \<and>
   m_nMove board_2x2 = Some [UNUSED, UNUSED, UNUSED, UNUSED] \<and>
   InsertUndirectedMove board_2x2 0 1 =
     Inr (True, board_2x2\<lparr>m_nMove := Some [1, UNUSED, UNUSED, UNUSED]\<rparr>)"
proof -
  have h: "wf_board board_2x2" "IsUndirected board_2x2" "valid_cell board_2x2 0"
    "valid_cell board_2x2 1" "m_nMove board_2x2 = Some [UNUSED, UNUSED, UNUSED, UNUSED]"
    by (simp_all add: wf_board_2x2 IsUndirected_board_2x2 valid_cell_2x2) (simp add: board_2x2_eq)
  from InsertUndirectedMove_policy [OF h] h show ?thesis by simp
qed

lemma InsertDirectedMove_slot_wf:
  assumes "m_nMove b = Some xs" "m_nMove2 b = Some ys" "length xs = n" "length ys = n"
    "0 \<le> c" "c < int n"
    "xs ! nat c = UNUSED \<or> 0 \<le> xs ! nat c" "ys ! nat c = UNUSED \<or> 0 \<le> ys ! nat c"
  shows "InsertDirectedMove_slot b c v =
     (if xs ! nat c = UNUSED then Inr (Some (b\<lparr>m_nMove := Some (xs[nat c := v])\<rparr>))
      else if ys ! nat c = UNUSED then Inr (Some (b\<lparr>m_nMove2 := Some (ys[nat c := v])\<rparr>))
      else Inr None)"
proof -
  have "xs ! nat c < 0 \<longleftrightarrow> xs ! nat c = UNUSED" "ys ! nat c < 0 \<longleftrightarrow> ys ! nat c = UNUSED"
    using assms(7,8) by (simp_all add: neg_iff_UNUSED)
  then show ?thesis using assms(1-6)
    by (simp add: InsertDirectedMove_slot_def bind_err_def read_table_Some write_table_Some)
qed

lemma free_slot_wf:
  assumes "m_nMove b = Some xs" "m_nMove2 b = Some ys" "length xs = n" "length ys = n"
    "0 \<le> c" "c < int n"
  shows "free_slot b c \<longleftrightarrow> xs ! nat c = UNUSED \<or> ys ! nat c = UNUSED"
  using assms by (simp add: free_slot_def read_table_Some)

text \<open>
  C6, as the claim states it, fails when \<open>src = dest\<close>: on the directed 2 by 2
  board whose cell 0 has a free primary slot and a used secondary slot,
  \<open>InsertDirectedMove(0, 0)\<close> returns false although cell 0, which is both
  endpoints, has a free slot when the call starts. (The first write takes that
  slot.)
\<close>

theorem InsertDirectedMove_self_move_counterexample:
  "free_slot (directed_2x2 [UNUSED, UNUSED, UNUSED, UNUSED] [1, UNUSED, UNUSED, UNUSED]) 0 \<and>
   InsertDirectedMove (directed_2x2 [UNUSED, UNUSED, UNUSED, UNUSED] [1, UNUSED, UNUSED, UNUSED]) 0 0 =
     Inr (False, directed_2x2 [0, UNUSED, UNUSED, UNUSED] [1, UNUSED, UNUSED, UNUSED])"
  by (simp add: free_slot_def InsertDirectedMove_def InsertDirectedMove_slot_def bind_err_def
        read_table_def write_table_def write_list_def directed_2x2_def IsDirected_def
        IsUndirected_def UNUSED_def)

text \<open>
  C6, amended. On a directed board, for valid cells \<open>src \<noteq> dest\<close>,
  \<open>InsertDirectedMove(src, dest)\<close> returns false if and only if \<open>src\<close> has no free
  (\<open>UNUSED\<close>) slot among its primary and secondary entries or \<open>dest\<close> has none; for
  \<open>src = dest\<close> it returns false if and only if the cell does not have both slots
  free. When \<open>src\<close> has no free slot the board is unchanged; when the call fails
  although \<open>src\<close> has a free slot, the write of \<open>dest\<close> into the first free slot of
  \<open>src\<close> has been made and stays, so that the board differs from the one before
  the call.
\<close>

theorem InsertDirectedMove_fails_iff_no_free_slot:
  assumes wf: "wf_board b" and dir: "IsDirected b"
    and src: "valid_cell b src" and dest: "valid_cell b dest"
    and xs: "m_nMove b = Some xs" and ys: "m_nMove2 b = Some ys"
  shows "\<exists>ok b'. InsertDirectedMove b src dest = Inr (ok, b') \<and>
      (src \<noteq> dest \<longrightarrow> (\<not> ok \<longleftrightarrow> \<not> free_slot b src \<or> \<not> free_slot b dest)) \<and>
      (src = dest \<longrightarrow> (\<not> ok \<longleftrightarrow> \<not> (xs ! nat src = UNUSED \<and> ys ! nat src = UNUSED))) \<and>
      (\<not> free_slot b src \<longrightarrow> b' = b) \<and>
      (\<not> ok \<and> free_slot b src \<longrightarrow>
         b' = (if xs ! nat src = UNUSED then b\<lparr>m_nMove := Some (xs[nat src := dest])\<rparr>
               else b\<lparr>m_nMove2 := Some (ys[nat src := dest])\<rparr>) \<and> b' \<noteq> b)"
proof -
  let ?n = "m_nSize b"
  from wf xs have lx: "length xs = ?n" and ex: "\<forall>i<?n. xs ! i = UNUSED \<or> 0 \<le> xs ! i"
    by (auto dest: wf_board_primaryD)
  from wf ys have ly: "length ys = ?n" and ey: "\<forall>i<?n. ys ! i = UNUSED \<or> 0 \<le> ys ! i"
    by (auto dest: wf_board_secondaryD)
  from src have s: "0 \<le> src" "src < int ?n" "nat src < ?n" by (auto simp: valid_cell_def)
  from dest have d: "0 \<le> dest" "dest < int ?n" "nat dest < ?n" by (auto simp: valid_cell_def)
  have nUd: "dest \<noteq> UNUSED" and nUs: "src \<noteq> UNUSED" using s d by (auto simp: UNUSED_def)
  have fs: "free_slot b src \<longleftrightarrow> xs ! nat src = UNUSED \<or> ys ! nat src = UNUSED"
    by (rule free_slot_wf [OF xs ys lx ly s(1,2)])
  have fd: "free_slot b dest \<longleftrightarrow> xs ! nat dest = UNUSED \<or> ys ! nat dest = UNUSED"
    by (rule free_slot_wf [OF xs ys lx ly d(1,2)])
  have first: "InsertDirectedMove_slot b src dest =
     (if xs ! nat src = UNUSED then Inr (Some (b\<lparr>m_nMove := Some (xs[nat src := dest])\<rparr>))
      else if ys ! nat src = UNUSED then Inr (Some (b\<lparr>m_nMove2 := Some (ys[nat src := dest])\<rparr>))
      else Inr None)"
    using ex ey s by (intro InsertDirectedMove_slot_wf [OF xs ys lx ly]) auto
  have neq: "nat src = nat dest \<longleftrightarrow> src = dest" using s d by auto
  consider (A) "xs ! nat src = UNUSED" | (B) "xs ! nat src \<noteq> UNUSED" "ys ! nat src = UNUSED"
    | (C) "xs ! nat src \<noteq> UNUSED" "ys ! nat src \<noteq> UNUSED" by blast
  then show ?thesis
  proof cases
    case A
    let ?b1 = "b\<lparr>m_nMove := Some (xs[nat src := dest])\<rparr>"
    let ?xs1 = "xs[nat src := dest]"
    have x1: "?xs1 ! nat dest = (if src = dest then dest else xs ! nat dest)"
      using s d lx by (auto simp: nth_list_update neq)
    have second: "InsertDirectedMove_slot ?b1 dest src =
       (if ?xs1 ! nat dest = UNUSED then Inr (Some (?b1\<lparr>m_nMove := Some (?xs1[nat dest := src])\<rparr>))
        else if ys ! nat dest = UNUSED then Inr (Some (?b1\<lparr>m_nMove2 := Some (ys[nat dest := src])\<rparr>))
        else Inr None)"
      using ex ey d x1 ys lx ly
      by (intro InsertDirectedMove_slot_wf [where n = ?n]) auto
    have ne: "?b1 \<noteq> b"
    proof
      assume "?b1 = b"
      then have "m_nMove ?b1 = m_nMove b" by simp
      then have "?xs1 ! nat src = xs ! nat src" using xs by simp
      then show False using A nUd s lx by simp
    qed
    show ?thesis
      using A dir first second x1 nUd ne fs fd
      by (auto simp: InsertDirectedMove_def bind_err_def)
  next
    case B
    let ?b1 = "b\<lparr>m_nMove2 := Some (ys[nat src := dest])\<rparr>"
    let ?ys1 = "ys[nat src := dest]"
    have y1: "?ys1 ! nat dest = (if src = dest then dest else ys ! nat dest)"
      using s d ly by (auto simp: nth_list_update neq)
    have second: "InsertDirectedMove_slot ?b1 dest src =
       (if xs ! nat dest = UNUSED then Inr (Some (?b1\<lparr>m_nMove := Some (xs[nat dest := src])\<rparr>))
        else if ?ys1 ! nat dest = UNUSED then Inr (Some (?b1\<lparr>m_nMove2 := Some (?ys1[nat dest := src])\<rparr>))
        else Inr None)"
      using ex ey d y1 xs lx ly
      by (intro InsertDirectedMove_slot_wf [where n = ?n]) auto
    have ne: "?b1 \<noteq> b"
    proof
      assume "?b1 = b"
      then have "m_nMove2 ?b1 = m_nMove2 b" by simp
      then have "?ys1 ! nat src = ys ! nat src" using ys by simp
      then show False using B nUd s ly by simp
    qed
    show ?thesis
      using B dir first second y1 nUd ne fs fd
      by (auto simp: InsertDirectedMove_def bind_err_def)
  next
    case C
    then show ?thesis
      using dir first fs by (auto simp: InsertDirectedMove_def bind_err_def)
  qed
qed

theorem InsertDirectedMove_fails_iff_no_free_slot_witness:
  "wf_board (directed_2x2 [UNUSED, 2, UNUSED, UNUSED] [UNUSED, 3, UNUSED, UNUSED]) \<and>
   IsDirected (directed_2x2 [UNUSED, 2, UNUSED, UNUSED] [UNUSED, 3, UNUSED, UNUSED]) \<and>
   valid_cell (directed_2x2 [UNUSED, 2, UNUSED, UNUSED] [UNUSED, 3, UNUSED, UNUSED]) 0 \<and>
   valid_cell (directed_2x2 [UNUSED, 2, UNUSED, UNUSED] [UNUSED, 3, UNUSED, UNUSED]) 1 \<and>
   free_slot (directed_2x2 [UNUSED, 2, UNUSED, UNUSED] [UNUSED, 3, UNUSED, UNUSED]) 0 \<and>
   \<not> free_slot (directed_2x2 [UNUSED, 2, UNUSED, UNUSED] [UNUSED, 3, UNUSED, UNUSED]) 1 \<and>
   InsertDirectedMove (directed_2x2 [UNUSED, 2, UNUSED, UNUSED] [UNUSED, 3, UNUSED, UNUSED]) 0 1 =
     Inr (False, directed_2x2 [1, 2, UNUSED, UNUSED] [UNUSED, 3, UNUSED, UNUSED])"
proof -
  let ?b = "directed_2x2 [UNUSED, 2, UNUSED, UNUSED] [UNUSED, 3, UNUSED, UNUSED]"
  have h: "wf_board ?b" "IsDirected ?b" "valid_cell ?b 0" "valid_cell ?b 1"
    by (simp_all add: wf_directed_2x2 wf_table_4 IsDirected_directed_2x2 valid_cell_directed_2x2)
  have t: "m_nMove ?b = Some [UNUSED, 2, UNUSED, UNUSED]"
    "m_nMove2 ?b = Some [UNUSED, 3, UNUSED, UNUSED]"
    by (simp_all add: directed_2x2_def)
  have f: "free_slot ?b 0" "\<not> free_slot ?b 1"
    by (simp_all add: free_slot_def directed_2x2_def read_table_def UNUSED_def)
  from InsertDirectedMove_fails_iff_no_free_slot [OF h t] f
  have "InsertDirectedMove ?b 0 1 = Inr (False, ?b\<lparr>m_nMove := Some [1, 2, UNUSED, UNUSED]\<rparr>)"
    by auto
  with h f show ?thesis by (simp add: directed_2x2_def)
qed

section \<open>Deletion\<close>

lemma clear_if_Some:
  "0 \<le> i \<Longrightarrow> i < int (length xs) \<Longrightarrow>
   clear_if (Some xs) i v = Inr (Some (if xs ! nat i = v then xs[nat i := UNUSED] else xs))"
  by (simp add: clear_if_def bind_err_def read_table_Some write_table_Some)

lemma cleared_primary_nth:
  "k < length xs \<Longrightarrow> cleared_primary xs src dest ! k =
     (if (int k = src \<and> xs ! k = dest) \<or> (int k = dest \<and> xs ! k = src) then UNUSED else xs ! k)"
  by (simp add: cleared_primary_def)

lemma length_cleared_primary: "length (cleared_primary xs src dest) = length xs"
  by (simp add: cleared_primary_def)

text \<open>The two \<open>if\<close> statements on the primary table compute \<open>cleared_primary\<close>.\<close>

lemma cleared_primary_seq:
  assumes "0 \<le> src" "src < int (length xs)" "0 \<le> dest" "dest < int (length xs)"
  shows "(let xs1 = (if xs ! nat src = dest then xs[nat src := UNUSED] else xs)
          in if xs1 ! nat dest = src then xs1[nat dest := UNUSED] else xs1)
         = cleared_primary xs src dest"
proof -
  define xs1 where "xs1 = (if xs ! nat src = dest then xs[nat src := UNUSED] else xs)"
  define xs2 where "xs2 = (if xs1 ! nat dest = src then xs1[nat dest := UNUSED] else xs1)"
  have l1: "length xs1 = length xs" by (simp add: xs1_def)
  have l2: "length xs2 = length xs" by (simp add: xs2_def l1)
  have s: "nat src < length xs" "nat dest < length xs" using assms by auto
  have e: "int k = src \<longleftrightarrow> k = nat src" "int k = dest \<longleftrightarrow> k = nat dest" for k
    using assms by auto
  have n: "nat src = nat dest \<longleftrightarrow> src = dest" using assms by auto
  have u: "UNUSED \<noteq> src" "UNUSED \<noteq> dest" using assms by (auto simp: UNUSED_def)
  have n1: "xs1 ! k = (if k = nat src \<and> xs ! k = dest then UNUSED else xs ! k)"
    if "k < length xs" for k
    using that by (auto simp: xs1_def nth_list_update)
  have n2: "xs2 ! k = (if k = nat dest \<and> xs1 ! k = src then UNUSED else xs1 ! k)"
    if "k < length xs" for k
    using that l1 by (auto simp: xs2_def nth_list_update)
  have "xs2 ! k = cleared_primary xs src dest ! k" if k: "k < length xs" for k
  proof (cases "src = dest")
    case True
    then show ?thesis using k s u by (auto simp: n1 n2 cleared_primary_nth e)
  next
    case False
    then have "nat src \<noteq> nat dest" using n by simp
    then show ?thesis using k s by (auto simp: n1 n2 cleared_primary_nth e)
  qed
  then have "xs2 = cleared_primary xs src dest"
    by (intro nth_equalityI) (simp_all add: l2 length_cleared_primary)
  then show ?thesis unfolding xs2_def xs1_def Let_def .
qed

lemma DeleteMove_directed_wf:
  assumes wf: "wf_board b" and dir: "IsDirected b"
    and src: "valid_cell b src" and dest: "valid_cell b dest"
    and xs: "m_nMove b = Some xs" and ys: "m_nMove2 b = Some ys"
  shows "\<exists>ok b'. DeleteMove b src dest = Inr (ok, b') \<and>
      m_nMove b' = Some (cleared_primary xs src dest) \<and>
      (IsMove (b\<lparr>m_nMove := Some (cleared_primary xs src dest)\<rparr>) src dest = Inr False \<longrightarrow>
         \<not> ok \<and> b' = b\<lparr>m_nMove := Some (cleared_primary xs src dest)\<rparr>) \<and>
      (\<not> ok \<longleftrightarrow> ys ! nat src \<noteq> dest \<and> ys ! nat dest \<noteq> src)"
proof -
  let ?n = "m_nSize b"
  let ?cs = "cleared_primary xs src dest"
  let ?b1 = "b\<lparr>m_nMove := Some ?cs\<rparr>"
  from wf xs have lx: "length xs = ?n" by (auto dest: wf_board_primaryD)
  from wf ys have ly: "length ys = ?n" by (auto dest: wf_board_secondaryD)
  from src have s: "0 \<le> src" "src < int ?n" "nat src < ?n" by (auto simp: valid_cell_def)
  from dest have d: "0 \<le> dest" "dest < int ?n" "nat dest < ?n" by (auto simp: valid_cell_def)
  have lc: "length ?cs = ?n" by (simp add: cleared_primary_def lx)
  have cs_src: "?cs ! nat src \<noteq> dest" and cs_dest: "?cs ! nat dest \<noteq> src"
    using s d lx by (auto simp: cleared_primary_def UNUSED_def)
  have clears: "bind_err (clear_if (m_nMove b) src dest) (\<lambda>t1. bind_err (clear_if t1 dest src) f)
      = f (Some ?cs)" for f :: "int list option \<Rightarrow> error + (bool \<times> CBaseBoard)"
    using cleared_primary_seq [of src xs dest] s d lx
    by (simp add: xs clear_if_Some bind_err_def Let_def)
  have rng: "CellIndexInRange ?b1 src" "CellIndexInRange ?b1 dest"
    using wf src dest by (simp_all add: wf_CellIndexInRange)
  have ismove: "IsMove ?b1 src dest = Inr (ys ! nat src = dest \<or> ys ! nat dest = src)"
    using rng cs_src cs_dest s d lc ly ys
    by (auto simp: IsMove_def bind_err_def read_table_Some)
  have d1: "IsDirected ?b1" using dir by (simp add: IsDirected_def IsUndirected_def)
  show ?thesis
    unfolding DeleteMove_def clears
    using d1 ismove s d ly ys
    by (auto simp: Let_def bind_err_def clear_if_Some)
qed

text \<open>On a directed board a move that no table records is reported as absent.\<close>

lemma DeleteMove_directed_absent:
  assumes wf: "wf_board b" and dir: "IsDirected b"
    and src: "valid_cell b src" and dest: "valid_cell b dest"
    and nm: "IsMove b src dest = Inr False"
  shows "DeleteMove b src dest = Inr (False, b)"
proof -
  from wf obtain xs where xs: "m_nMove b = Some xs" using wf_board_has_primary by blast
  from wf dir obtain ys where ys: "m_nMove2 b = Some ys" using wf_board_has_secondary by blast
  from wf xs have lx: "length xs = m_nSize b" by (auto dest: wf_board_primaryD)
  from wf ys have ly: "length ys = m_nSize b" by (auto dest: wf_board_secondaryD)
  from src have s: "0 \<le> src" "src < int (m_nSize b)" by (auto simp: valid_cell_def)
  from dest have d: "0 \<le> dest" "dest < int (m_nSize b)" by (auto simp: valid_cell_def)
  have "CellIndexInRange b src" "CellIndexInRange b dest"
    using wf src dest by (simp_all add: wf_CellIndexInRange)
  with nm have no: "xs ! nat src \<noteq> dest" "xs ! nat dest \<noteq> src"
    "ys ! nat src \<noteq> dest \<and> ys ! nat dest \<noteq> src"
    using xs ys lx ly s d
    by (auto simp: IsMove_def bind_err_def read_table_Some split: if_splits)
  have c: "cleared_primary xs src dest = xs"
    using no(1,2) s d lx
    by (intro nth_equalityI) (auto simp: length_cleared_primary cleared_primary_nth)
  have same: "b\<lparr>m_nMove := Some xs\<rparr> = b" using xs by simp
  from DeleteMove_directed_wf [OF wf dir src dest xs ys] show ?thesis
    unfolding c same using nm by auto
qed

text \<open>
  C5. On a directed board, for valid cells \<open>src\<close> and \<open>dest\<close>, \<open>DeleteMove(src, dest)\<close>
  clears every primary slot at \<open>src\<close> or \<open>dest\<close> that equals the other endpoint
  before it checks \<open>IsMove\<close>, whatever the outcome of the call; when the check,
  made on the board so cleared, fails, \<open>DeleteMove\<close> returns false and the board
  is left with the cleared primary table. The check fails exactly when neither
  secondary slot records the move.
\<close>

theorem DeleteMove_directed_clears_before_check:
  assumes "wf_board b" and "IsDirected b"
    and "valid_cell b src" and "valid_cell b dest"
    and "m_nMove b = Some xs" and "m_nMove2 b = Some ys"
  shows "\<exists>ok b'. DeleteMove b src dest = Inr (ok, b') \<and>
      m_nMove b' = Some (cleared_primary xs src dest) \<and>
      (IsMove (b\<lparr>m_nMove := Some (cleared_primary xs src dest)\<rparr>) src dest = Inr False \<longrightarrow>
         \<not> ok \<and> b' = b\<lparr>m_nMove := Some (cleared_primary xs src dest)\<rparr>) \<and>
      (\<not> ok \<longleftrightarrow> ys ! nat src \<noteq> dest \<and> ys ! nat dest \<noteq> src)"
  using assms by (rule DeleteMove_directed_wf)

theorem DeleteMove_directed_clears_before_check_witness:
  "wf_board (directed_2x2 [1, UNUSED, UNUSED, UNUSED] [UNUSED, UNUSED, UNUSED, UNUSED]) \<and>
   IsDirected (directed_2x2 [1, UNUSED, UNUSED, UNUSED] [UNUSED, UNUSED, UNUSED, UNUSED]) \<and>
   valid_cell (directed_2x2 [1, UNUSED, UNUSED, UNUSED] [UNUSED, UNUSED, UNUSED, UNUSED]) 0 \<and>
   valid_cell (directed_2x2 [1, UNUSED, UNUSED, UNUSED] [UNUSED, UNUSED, UNUSED, UNUSED]) 1 \<and>
   cleared_primary [1, UNUSED, UNUSED, UNUSED] 0 1 = [UNUSED, UNUSED, UNUSED, UNUSED] \<and>
   DeleteMove (directed_2x2 [1, UNUSED, UNUSED, UNUSED] [UNUSED, UNUSED, UNUSED, UNUSED]) 0 1 =
     Inr (False, directed_2x2 [UNUSED, UNUSED, UNUSED, UNUSED] [UNUSED, UNUSED, UNUSED, UNUSED])"
proof -
  let ?b = "directed_2x2 [1, UNUSED, UNUSED, UNUSED] [UNUSED, UNUSED, UNUSED, UNUSED]"
  have h: "wf_board ?b" "IsDirected ?b" "valid_cell ?b 0" "valid_cell ?b 1"
    by (simp_all add: wf_directed_2x2 wf_table_4 IsDirected_directed_2x2 valid_cell_directed_2x2)
  have t: "m_nMove ?b = Some [1, UNUSED, UNUSED, UNUSED]"
    "m_nMove2 ?b = Some [UNUSED, UNUSED, UNUSED, UNUSED]"
    by (simp_all add: directed_2x2_def)
  have "[0..<4] = [0, 1, 2, 3]" by (simp add: upt_rec)
  then have c: "cleared_primary [1, UNUSED, UNUSED, UNUSED] 0 1 = [UNUSED, UNUSED, UNUSED, UNUSED]"
    by (simp add: cleared_primary_def UNUSED_def)
  have m: "IsMove (?b\<lparr>m_nMove := Some [UNUSED, UNUSED, UNUSED, UNUSED]\<rparr>) 0 1 = Inr False"
    by (simp add: IsMove_def bind_err_def read_table_def directed_2x2_def UNUSED_def
          CellIndexInRange_def s32_def)
  from DeleteMove_directed_clears_before_check [OF h t] m
  have "DeleteMove ?b 0 1 = Inr (False, ?b\<lparr>m_nMove := Some [UNUSED, UNUSED, UNUSED, UNUSED]\<rparr>)"
    unfolding c by auto
  with h c show ?thesis by (simp add: directed_2x2_def)
qed

text \<open>
  C4. The claim is that \<open>DeleteMove(src, dest)\<close> returns false whenever no table
  records a move between \<open>src\<close> and \<open>dest\<close>. On a directed board it does
  (\<open>DeleteMove_directed_absent\<close>). On an undirected board the existence check is
  never made and the call returns true: here on the empty 2 by 2 board, where
  no move at all is recorded.
\<close>

theorem DeleteMove_undirected_absent_move_returns_true:
  "m_nMove board_2x2 = Some [UNUSED, UNUSED, UNUSED, UNUSED] \<and> m_nMove2 board_2x2 = None \<and>
   DeleteMove board_2x2 0 1 = Inr (True, board_2x2)"
  by (simp add: board_2x2_eq DeleteMove_def clear_if_def bind_err_def read_table_def
        IsDirected_def IsUndirected_def UNUSED_def)

section \<open>Queries outside the board\<close>

lemma IsUnused_undirected: "IsUndirected b \<Longrightarrow> IsUnused b i = Inl AssertionFailed"
  by (simp add: IsUnused_def IsDirected_def)

lemma operator_index_directed: "IsDirected b \<Longrightarrow> operator_index b i = Inl AssertionFailed"
  by (simp add: operator_index_def IsDirected_def)

text \<open>
  C9, as the claim states it, holds on no board when assertions are compiled
  in: on a directed board the assertion of \<open>operator[]\<close> fails, and on an
  undirected board the assertion of \<open>IsUnused\<close> fails.
\<close>

theorem out_of_range_queries_counterexample:
  "\<not> valid_cell (directed_2x2 [UNUSED, UNUSED, UNUSED, UNUSED] [UNUSED, UNUSED, UNUSED, UNUSED]) (-1) \<and>
   operator_index (directed_2x2 [UNUSED, UNUSED, UNUSED, UNUSED] [UNUSED, UNUSED, UNUSED, UNUSED]) (-1)
     = Inl AssertionFailed \<and>
   \<not> valid_cell board_2x2 (-1) \<and>
   IsUnused board_2x2 (-1) = Inl AssertionFailed"
  by (simp add: valid_cell_directed_2x2 valid_cell_2x2 operator_index_directed
        IsDirected_directed_2x2 IsUnused_undirected IsUndirected_board_2x2)

text \<open>
  C9, amended. For every undirected board and every index \<open>i\<close> outside
  \<open>0..n-1\<close>, \<open>operator[](i)\<close> returns \<open>UNUSED\<close>. For every board on which the
  assertion of \<open>IsUnused\<close> does not fail, \<open>IsUnused(i)\<close> returns false for every
  index outside \<open>0..n-1\<close> and, when the board is well formed, returns for an
  index inside that range whether the primary slot \<open>m[i]\<close> equals \<open>UNUSED\<close>.
\<close>

theorem out_of_range_queries:
  "(IsUndirected b \<and> \<not> valid_cell b i \<longrightarrow> operator_index b i = Inr UNUSED) \<and>
   (IsUnused b i \<noteq> Inl AssertionFailed \<and> \<not> valid_cell b i \<longrightarrow> IsUnused b i = Inr False) \<and>
   (IsUnused b i \<noteq> Inl AssertionFailed \<and> wf_board b \<and> valid_cell b i \<longrightarrow>
      (\<exists>xs. m_nMove b = Some xs \<and> IsUnused b i = Inr (xs ! nat i = UNUSED)))"
proof (intro conjI impI)
  assume "IsUndirected b \<and> \<not> valid_cell b i"
  then show "operator_index b i = Inr UNUSED"
    using CellIndexInRange_imp_valid [of b i] by (auto simp: operator_index_def)
next
  assume "IsUnused b i \<noteq> Inl AssertionFailed \<and> \<not> valid_cell b i"
  then show "IsUnused b i = Inr False"
    using CellIndexInRange_imp_valid [of b i] by (auto simp: IsUnused_def split: if_splits)
next
  assume a: "IsUnused b i \<noteq> Inl AssertionFailed \<and> wf_board b \<and> valid_cell b i"
  then obtain xs where xs: "m_nMove b = Some xs" using wf_board_has_primary by blast
  with a have lx: "length xs = m_nSize b" by (auto dest: wf_board_primaryD)
  from a have "CellIndexInRange b i" by (simp add: wf_CellIndexInRange)
  with a xs lx show "\<exists>xs. m_nMove b = Some xs \<and> IsUnused b i = Inr (xs ! nat i = UNUSED)"
    by (auto simp: IsUnused_def bind_err_def read_table_def valid_cell_def split: if_splits)
qed

theorem out_of_range_queries_witness:
  "IsUndirected board_2x2 \<and> \<not> valid_cell board_2x2 4 \<and> operator_index board_2x2 4 = Inr UNUSED \<and>
   wf_board (directed_2x2 [1, UNUSED, UNUSED, UNUSED] [UNUSED, 0, UNUSED, UNUSED]) \<and>
   IsUnused (directed_2x2 [1, UNUSED, UNUSED, UNUSED] [UNUSED, 0, UNUSED, UNUSED]) (-1) = Inr False \<and>
   IsUnused (directed_2x2 [1, UNUSED, UNUSED, UNUSED] [UNUSED, 0, UNUSED, UNUSED]) 4 = Inr False \<and>
   IsUnused (directed_2x2 [1, UNUSED, UNUSED, UNUSED] [UNUSED, 0, UNUSED, UNUSED]) 0 = Inr False \<and>
   IsUnused (directed_2x2 [1, UNUSED, UNUSED, UNUSED] [UNUSED, 0, UNUSED, UNUSED]) 1 = Inr True"
proof -
  let ?d = "directed_2x2 [1, UNUSED, UNUSED, UNUSED] [UNUSED, 0, UNUSED, UNUSED]"
  have u: "IsUndirected board_2x2" "\<not> valid_cell board_2x2 4"
    by (simp_all add: IsUndirected_board_2x2 valid_cell_2x2)
  have w: "wf_board ?d" by (simp add: wf_directed_2x2 wf_table_4)
  have na: "IsUnused ?d j \<noteq> Inl AssertionFailed" for j
    using IsDirected_directed_2x2 [of "[1, UNUSED, UNUSED, UNUSED]" "[UNUSED, 0, UNUSED, UNUSED]"]
    by (simp add: IsUnused_def bind_err_def read_table_def split: option.splits)
  have v: "\<not> valid_cell ?d (-1)" "\<not> valid_cell ?d 4" "valid_cell ?d 0" "valid_cell ?d 1"
    by (simp_all add: valid_cell_directed_2x2)
  have t: "m_nMove ?d = Some [1, UNUSED, UNUSED, UNUSED]" by (simp add: directed_2x2_def)
  from out_of_range_queries [of board_2x2 4] u
  have 1: "operator_index board_2x2 4 = Inr UNUSED" by blast
  from out_of_range_queries [of ?d "-1"] na v
  have 2: "IsUnused ?d (-1) = Inr False" by blast
  from out_of_range_queries [of ?d 4] na v
  have 3: "IsUnused ?d 4 = Inr False" by blast
  from out_of_range_queries [of ?d 0] na v w t
  have 4: "IsUnused ?d 0 = Inr False" by (auto simp: UNUSED_def)
  from out_of_range_queries [of ?d 1] na v w t
  have 5: "IsUnused ?d 1 = Inr True" by auto
  from u w 1 2 3 4 5 show ?thesis by blast
qed

text \<open>
  C10. The claim is that the assertion of \<open>IsUnused(index)\<close> holds on every
  undirected board. The source asserts \<open>IsDirected()\<close>, so on every undirected
  board the assertion fails (\<open>IsUnused_undirected\<close>): here on the empty 2 by 2
  board the constructor makes, at cell 0.
\<close>

theorem IsUnused_assertion_fails_on_undirected_board:
  "wf_board board_2x2 \<and> IsUndirected board_2x2 \<and> IsUnused board_2x2 0 = Inl AssertionFailed"
  by (simp add: wf_board_2x2 IsUndirected_board_2x2 IsUnused_undirected)

section \<open>Knight's moves\<close>

lemma s32_u32: "s32 (u32 v) = s32 v"
  by (simp add: s32_def u32_def mod_simps)

lemma u32_add_u32: "u32 (a + u32 d) = u32 (a + d)"
  by (simp add: u32_def mod_simps)

lemma u32_mult_add: "u32 (u32 y * w + u32 x) = u32 (y * w + x)"
proof -
  have "(y mod 4294967296 * w) mod 4294967296 = (y * w) mod 4294967296"
    by (rule mod_mult_left_eq)
  moreover have "(x mod 4294967296) mod 4294967296 = x mod 4294967296" by simp
  ultimately show ?thesis unfolding u32_def by (rule mod_add_cong)
qed

lemma div_le_dividend_int: "0 < w \<Longrightarrow> 0 \<le> (i::int) \<Longrightarrow> i div int w \<le> i"
  using zdiv_mono2 [of i 1 "int w"] by simp

lemma u32_small: "0 \<le> v \<Longrightarrow> v < 4294967296 \<Longrightarrow> u32 v = v"
  by (simp add: u32_def)

lemma s32_range: "- 2147483648 \<le> v \<Longrightarrow> v < 2147483648 \<Longrightarrow> s32 v = v"
  by (simp add: s32_def)

lemma wf_new_board:
  assumes "even (w * h)" "w * h < 2147483648"
  shows "wf_board (new_board w h)"
proof -
  have "(w * h) mod 4294967296 = w * h" using assms(2) by simp
  then show ?thesis
    using assms
    by (simp add: new_board_def wf_board_def wf_table_def Let_def list_all_length)
qed

text \<open>The coordinates of a valid cell of a well-formed board.\<close>

lemma valid_cell_coordinates:
  assumes wf: "wf_board b" and v: "valid_cell b i"
  shows "0 < m_nWidth b" "0 < m_nHeight b"
    "int (m_nWidth b) < 2147483648" "int (m_nHeight b) < 2147483648"
    "0 \<le> i" "i < 2147483648"
    "0 \<le> i mod int (m_nWidth b)" "i mod int (m_nWidth b) < int (m_nWidth b)"
    "0 \<le> i div int (m_nWidth b)" "i div int (m_nWidth b) < int (m_nHeight b)"
proof -
  let ?w = "m_nWidth b" and ?h = "m_nHeight b"
  from wf have n: "m_nSize b = ?w * ?h" "?w * ?h < 2147483648" by (simp_all add: wf_board_def)
  from v n have i: "0 \<le> i" "i < int (?w * ?h)" by (simp_all add: valid_cell_def)
  then have pos: "0 < ?w * ?h" by linarith
  then show w: "0 < ?w" and h: "0 < ?h" by simp_all
  have "?w \<le> ?w * ?h" "?h \<le> ?w * ?h" using w h by simp_all
  with n(2) show "int ?w < 2147483648" "int ?h < 2147483648" by linarith+
  show "0 \<le> i" by (rule i)
  show "i < 2147483648" using i(2) n(2) by linarith
  show "0 \<le> i mod int ?w" "i mod int ?w < int ?w" using w by simp_all
  show "0 \<le> i div int ?w" using i(1) w by (simp add: pos_imp_zdiv_nonneg_iff)
  have "int ?w * (i div int ?w) + i mod int ?w = i" by (rule mult_div_mod_eq)
  moreover have "0 \<le> i mod int ?w" using w by simp
  ultimately have "int ?w * (i div int ?w) \<le> i" by linarith
  also have "i < int ?w * int ?h" using i(2) by simp
  finally show "i div int ?w < int ?h" using w by simp
qed

text \<open>The \<open>switch\<close> of \<open>GetMoveIndex\<close> is the fixed table.\<close>

lemma GetMoveIndex_switch:
  "(if dx = -2 then (if dy = -1 then Inr 3 else if dy = 1 then Inr 4 else Inr UNUSED)
    else if dx = -1 then (if dy = -2 then Inr 2 else if dy = 2 then Inr 5 else Inr UNUSED)
    else if dx = 1 then (if dy = -2 then Inr 1 else if dy = 2 then Inr 6 else Inr UNUSED)
    else if dx = 2 then (if dy = -1 then Inr 0 else if dy = 1 then Inr 7 else Inr UNUSED)
    else Inr UNUSED) = (Inr (canonical_move_index (dx, dy)) :: error + int)"
  by (simp add: canonical_move_index_def)

lemma GetMoveIndex_displacement:
  assumes wf: "wf_board b" and src: "valid_cell b src" and dest: "valid_cell b dest"
  shows "GetMoveIndex b src dest = Inr (canonical_move_index (displacement b src dest))"
proof -
  let ?w = "int (m_nWidth b)"
  note s = valid_cell_coordinates [OF wf src] and d = valid_cell_coordinates [OF wf dest]
  have us: "u32 src = src" and ud: "u32 dest = dest"
    using s(5,6) d(5,6) by (simp_all add: u32_small)
  have "- 2147483648 \<le> dest mod ?w - src mod ?w" "dest mod ?w - src mod ?w < 2147483648"
    using s(3,7,8) d(7,8) by linarith+
  then have dx: "s32 (u32 (dest mod ?w - src mod ?w)) = dest mod ?w - src mod ?w"
    by (simp add: s32_u32 s32_range)
  have "src div ?w \<le> src" "dest div ?w \<le> dest"
    using s(1,5) d(5) by (simp_all add: div_le_dividend_int)
  then have "- 2147483648 \<le> dest div ?w - src div ?w" "dest div ?w - src div ?w < 2147483648"
    using s(6,9) d(6,9) by linarith+
  then have dy: "s32 (u32 (dest div ?w - src div ?w)) = dest div ?w - src div ?w"
    by (simp add: s32_u32 s32_range)
  show ?thesis
    using s(1)
    by (simp add: GetMoveIndex_def Let_def us ud dx dy displacement_def GetMoveIndex_switch)
qed

lemma GetDest_displacement:
  assumes wf: "wf_board b" and src: "valid_cell b src" and dest: "valid_cell b dest"
    and k: "\<bar>fst (displacement b src dest)\<bar> \<le> 2" "\<bar>snd (displacement b src dest)\<bar> \<le> 2"
  shows "GetDest b src (displacement b src dest) = Inr dest"
proof -
  let ?w = "int (m_nWidth b)" and ?h = "int (m_nHeight b)"
  note s = valid_cell_coordinates [OF wf src] and d = valid_cell_coordinates [OF wf dest]
  have us: "u32 src = src" using s(5,6) by (simp add: u32_small)
  have "- 2147483648 \<le> dest mod ?w" "dest mod ?w < 2147483648"
    using d(3,7,8) by linarith+
  then have x: "s32 (u32 (src mod ?w + u32 (dest mod ?w - src mod ?w))) = dest mod ?w"
    by (simp add: u32_add_u32 s32_u32 s32_range)
  have "dest div ?w \<le> dest" using d(1,5) by (simp add: div_le_dividend_int)
  then have "- 2147483648 \<le> dest div ?w" "dest div ?w < 2147483648"
    using d(6,9) by linarith+
  then have y: "s32 (u32 (src div ?w + u32 (dest div ?w - src div ?w))) = dest div ?w"
    by (simp add: u32_add_u32 s32_u32 s32_range)
  have rx: "InRangeX b (dest mod ?w)" using d(3,7,8) by (simp add: InRangeX_def s32_range)
  have ry: "InRangeY b (dest div ?w)" using d(4,9,10) by (simp add: InRangeY_def s32_range)
  have ret: "s32 (u32 (u32 (dest div ?w) * ?w + u32 (dest mod ?w))) = dest"
    using d(5,6) by (simp add: u32_mult_add s32_u32 s32_range)
  show ?thesis
    using s(1) rx ry
    by (simp add: GetDest_def Let_def us displacement_def x y ret)
qed

lemma g_vecDeltas_nth_canonical:
  "d \<in> set g_vecDeltas \<Longrightarrow>
     0 \<le> canonical_move_index d \<and> canonical_move_index d < 8 \<and>
     g_vecDeltas ! nat (canonical_move_index d) = d"
  by (auto simp: g_vecDeltas_def canonical_move_index_def)

lemma canonical_move_index_UNUSED:
  "d \<notin> set g_vecDeltas \<Longrightarrow> canonical_move_index d = UNUSED"
  by (cases d) (auto simp: g_vecDeltas_def canonical_move_index_def)

text \<open>
  C8. For valid cells \<open>src\<close> and \<open>dest\<close> of a board: \<open>GetMoveIndex(src, dest)\<close>
  returns the index that the fixed table gives the coordinate displacement from
  \<open>src\<close> to \<open>dest\<close> when that is one of the 8 knight-move deltas
  (\<open>(-2,-1)\<close> to 3, \<open>(-2,1)\<close> to 4, \<open>(-1,-2)\<close> to 2, \<open>(-1,2)\<close> to 5, \<open>(1,-2)\<close> to 1,
  \<open>(1,2)\<close> to 6, \<open>(2,-1)\<close> to 0, \<open>(2,1)\<close> to 7), and \<open>UNUSED\<close> otherwise; and for
  a knight move, \<open>GetDest\<close> applied to \<open>src\<close> and the delta that \<open>g_vecDeltas\<close>
  holds at index \<open>GetMoveIndex(src, dest)\<close> returns \<open>dest\<close>.
\<close>

theorem GetMoveIndex_GetDest_inverse:
  assumes "wf_board b" and "valid_cell b src" and "valid_cell b dest"
  shows "GetMoveIndex b src dest = Inr (canonical_move_index (displacement b src dest)) \<and>
    (displacement b src dest \<notin> set g_vecDeltas \<longrightarrow> GetMoveIndex b src dest = Inr UNUSED) \<and>
    (displacement b src dest \<in> set g_vecDeltas \<longrightarrow>
       (\<exists>k<8. GetMoveIndex b src dest = Inr (int k) \<and>
              g_vecDeltas ! k = displacement b src dest \<and>
              GetDest b src (g_vecDeltas ! k) = Inr dest))"
proof (intro conjI impI)
  show eq: "GetMoveIndex b src dest = Inr (canonical_move_index (displacement b src dest))"
    using assms by (rule GetMoveIndex_displacement)
  show "GetMoveIndex b src dest = Inr UNUSED" if "displacement b src dest \<notin> set g_vecDeltas"
    using that eq by (simp add: canonical_move_index_UNUSED)
  show "\<exists>k<8. GetMoveIndex b src dest = Inr (int k) \<and>
              g_vecDeltas ! k = displacement b src dest \<and>
              GetDest b src (g_vecDeltas ! k) = Inr dest"
    if m: "displacement b src dest \<in> set g_vecDeltas"
  proof -
    let ?d = "displacement b src dest"
    let ?k = "nat (canonical_move_index ?d)"
    from g_vecDeltas_nth_canonical [OF m]
    have k: "0 \<le> canonical_move_index ?d" "canonical_move_index ?d < 8" "g_vecDeltas ! ?k = ?d"
      by simp_all
    from m have "\<bar>fst ?d\<bar> \<le> 2" "\<bar>snd ?d\<bar> \<le> 2" by (auto simp: g_vecDeltas_def)
    then have "GetDest b src ?d = Inr dest"
      using assms by (intro GetDest_displacement)
    with k eq show ?thesis by (intro exI [of _ ?k]) simp
  qed
qed

theorem GetMoveIndex_GetDest_inverse_witness:
  "wf_board board_3x2 \<and> valid_cell board_3x2 0 \<and> valid_cell board_3x2 5 \<and>
   valid_cell board_3x2 1 \<and>
   displacement board_3x2 0 5 = (2, 1) \<and> (2, 1) \<in> set g_vecDeltas \<and>
   GetMoveIndex board_3x2 0 5 = Inr 7 \<and> GetDest board_3x2 0 (g_vecDeltas ! 7) = Inr 5 \<and>
   displacement board_3x2 0 1 = (1, 0) \<and> (1, 0) \<notin> set g_vecDeltas \<and>
   GetMoveIndex board_3x2 0 1 = Inr UNUSED"
proof -
  have w: "wf_board board_3x2" unfolding board_3x2_def by (rule wf_new_board) simp_all
  have sz: "m_nSize board_3x2 = 6" "m_nWidth board_3x2 = 3"
    by (simp_all add: board_3x2_def new_board_def)
  have v: "valid_cell board_3x2 0" "valid_cell board_3x2 5" "valid_cell board_3x2 1"
    by (simp_all add: valid_cell_def sz)
  have d: "displacement board_3x2 0 5 = (2, 1)" "displacement board_3x2 0 1 = (1, 0)"
    by (simp_all add: displacement_def sz)
  have m: "(2, 1) \<in> set g_vecDeltas" "(1, 0) \<notin> set g_vecDeltas"
    by (simp_all add: g_vecDeltas_def)
  have c: "canonical_move_index (2, 1) = 7" by (simp add: canonical_move_index_def)
  from GetMoveIndex_GetDest_inverse [OF w v(1) v(2)] d m c
  have 1: "GetMoveIndex board_3x2 0 5 = Inr 7 \<and> GetDest board_3x2 0 (g_vecDeltas ! 7) = Inr 5"
    by (auto simp: g_vecDeltas_def)
  from GetMoveIndex_GetDest_inverse [OF w v(1) v(3)] m(2)
  have 2: "GetMoveIndex board_3x2 0 1 = Inr UNUSED" unfolding d by blast
  from w v d m 1 2 show ?thesis by simp
qed

section \<open>The tourney test\<close>

lemma length_incr [simp]: "length (incr count k) = length count"
  by (simp add: incr_def)

lemma incr_nth:
  "k < length count \<Longrightarrow> c < length count \<Longrightarrow>
     incr count k ! c = count ! c + (if c = k then 1 else 0)"
  by (simp add: incr_def nth_list_update)

lemma IsTourney_undirected_loop_stopped:
  "IsTourney_undirected_loop b is count False = Inr (count, False)"
  by (cases "is") simp_all

lemma IsTourney_directed_loop_stopped:
  "IsTourney_directed_loop b is count False = Inr (count, False)"
  by (cases "is") simp_all

lemma read_table_nat:
  "i < length xs \<Longrightarrow> read_table (Some xs) (int i) = Inr (xs ! i)"
  by (simp add: read_table_def)

text \<open>What the loop over an undirected board leaves in \<open>count\<close>.\<close>

lemma IsTourney_undirected_loop_counts:
  assumes t: "m_nMove b = Some xs" "length xs = m_nSize b"
    and r: "\<And>v. CellIndexInRange b v \<longleftrightarrow> valid_cell b v"
  shows "\<forall>i\<in>set is. i < m_nSize b \<Longrightarrow> length count = m_nSize b \<Longrightarrow>
    \<exists>count'. IsTourney_undirected_loop b is count True
        = Inr (count', \<forall>i\<in>set is. valid_cell b (xs ! i)) \<and>
      length count' = m_nSize b \<and>
      ((\<forall>i\<in>set is. valid_cell b (xs ! i)) \<longrightarrow>
         (\<forall>c<m_nSize b. count' ! c = count ! c + int (count_list is c)
             + int (count_list (map (\<lambda>i. nat (xs ! i)) is) c)))"
proof (induction "is" arbitrary: count)
  case Nil
  then show ?case by simp
next
  case (Cons i rest)
  let ?n = "m_nSize b"
  from Cons.prems have i: "i < ?n" and rest: "\<forall>i\<in>set rest. i < ?n" by simp_all
  have rd: "read_table (m_nMove b) (int i) = Inr (xs ! i)"
    using t i by (simp add: read_table_nat)
  show ?case
  proof (cases "valid_cell b (xs ! i)")
    case False
    then show ?thesis
      using rd Cons.prems(2) by (simp add: r IsTourney_undirected_loop_stopped)
  next
    case True
    then have v: "nat (xs ! i) < ?n" by (auto simp: valid_cell_def)
    let ?c1 = "incr (incr count i) (nat (xs ! i))"
    have l1: "length ?c1 = ?n" using Cons.prems(2) by simp
    from Cons.IH [OF rest l1] obtain count' where
      c': "IsTourney_undirected_loop b rest ?c1 True
            = Inr (count', \<forall>i\<in>set rest. valid_cell b (xs ! i))"
      "length count' = ?n"
      "(\<forall>i\<in>set rest. valid_cell b (xs ! i)) \<longrightarrow>
         (\<forall>c<?n. count' ! c = ?c1 ! c + int (count_list rest c)
             + int (count_list (map (\<lambda>i. nat (xs ! i)) rest) c))"
      by blast
    have n1: "?c1 ! c = count ! c + (if c = i then 1 else 0) + (if c = nat (xs ! i) then 1 else 0)"
      if "c < ?n" for c
      using that i v Cons.prems(2) by (simp add: incr_nth)
    show ?thesis
    proof (intro exI [of _ count'] conjI impI allI)
      show "IsTourney_undirected_loop b (i # rest) count True
          = Inr (count', \<forall>i\<in>set (i # rest). valid_cell b (xs ! i))"
        using rd True c'(1) by (simp add: r)
      show "length count' = ?n" by (rule c'(2))
      fix c assume a: "\<forall>i\<in>set (i # rest). valid_cell b (xs ! i)" and c: "c < ?n"
      then have "count' ! c = ?c1 ! c + int (count_list rest c)
             + int (count_list (map (\<lambda>i. nat (xs ! i)) rest) c)"
        using c'(3) by simp
      then show "count' ! c = count ! c + int (count_list (i # rest) c)
             + int (count_list (map (\<lambda>i. nat (xs ! i)) (i # rest)) c)"
        using n1 [OF c] by auto
    qed
  qed
qed

text \<open>What the loop over a directed board leaves in \<open>count\<close>.\<close>

lemma IsTourney_directed_loop_counts:
  assumes t: "m_nMove b = Some xs" "length xs = m_nSize b"
    and u: "m_nMove2 b = Some ys" "length ys = m_nSize b"
    and r: "\<And>v. CellIndexInRange b v \<longleftrightarrow> valid_cell b v"
  shows "\<forall>i\<in>set is. i < m_nSize b \<Longrightarrow> length count = m_nSize b \<Longrightarrow>
    \<exists>count'. IsTourney_directed_loop b is count True
        = Inr (count', \<forall>i\<in>set is. valid_cell b (xs ! i) \<and> valid_cell b (ys ! i)) \<and>
      length count' = m_nSize b \<and>
      ((\<forall>i\<in>set is. valid_cell b (xs ! i) \<and> valid_cell b (ys ! i)) \<longrightarrow>
         (\<forall>c<m_nSize b. count' ! c = count ! c
             + int (count_list (map (\<lambda>i. nat (xs ! i)) is) c)
             + int (count_list (map (\<lambda>i. nat (ys ! i)) is) c)))"
proof (induction "is" arbitrary: count)
  case Nil
  then show ?case by simp
next
  case (Cons i rest)
  let ?n = "m_nSize b"
  from Cons.prems have i: "i < ?n" and rest: "\<forall>i\<in>set rest. i < ?n" by simp_all
  have rd: "read_table (m_nMove b) (int i) = Inr (xs ! i)"
    "read_table (m_nMove2 b) (int i) = Inr (ys ! i)"
    using t u i by (simp_all add: read_table_nat)
  show ?case
  proof (cases "valid_cell b (xs ! i) \<and> valid_cell b (ys ! i)")
    case False
    then show ?thesis
      using rd Cons.prems(2)
      by (auto simp: r Let_def IsTourney_directed_loop_stopped)
  next
    case True
    then have v: "nat (xs ! i) < ?n" "nat (ys ! i) < ?n" by (auto simp: valid_cell_def)
    let ?c2 = "incr (incr count (nat (xs ! i))) (nat (ys ! i))"
    have l2: "length ?c2 = ?n" using Cons.prems(2) by simp
    from Cons.IH [OF rest l2] obtain count' where
      c': "IsTourney_directed_loop b rest ?c2 True
            = Inr (count', \<forall>i\<in>set rest. valid_cell b (xs ! i) \<and> valid_cell b (ys ! i))"
      "length count' = ?n"
      "(\<forall>i\<in>set rest. valid_cell b (xs ! i) \<and> valid_cell b (ys ! i)) \<longrightarrow>
         (\<forall>c<?n. count' ! c = ?c2 ! c
             + int (count_list (map (\<lambda>i. nat (xs ! i)) rest) c)
             + int (count_list (map (\<lambda>i. nat (ys ! i)) rest) c))"
      by blast
    have n2: "?c2 ! c = count ! c + (if c = nat (xs ! i) then 1 else 0)
        + (if c = nat (ys ! i) then 1 else 0)"
      if "c < ?n" for c
      using that v Cons.prems(2) by (simp add: incr_nth)
    show ?thesis
    proof (intro exI [of _ count'] conjI impI allI)
      show "IsTourney_directed_loop b (i # rest) count True
          = Inr (count', \<forall>i\<in>set (i # rest). valid_cell b (xs ! i) \<and> valid_cell b (ys ! i))"
        using rd True c'(1) by (simp add: r Let_def)
      show "length count' = ?n" by (rule c'(2))
      fix c
      assume a: "\<forall>i\<in>set (i # rest). valid_cell b (xs ! i) \<and> valid_cell b (ys ! i)"
        and c: "c < ?n"
      then have "count' ! c = ?c2 ! c
             + int (count_list (map (\<lambda>i. nat (xs ! i)) rest) c)
             + int (count_list (map (\<lambda>i. nat (ys ! i)) rest) c)"
        using c'(3) by simp
      then show "count' ! c = count ! c
             + int (count_list (map (\<lambda>i. nat (xs ! i)) (i # rest)) c)
             + int (count_list (map (\<lambda>i. nat (ys ! i)) (i # rest)) c)"
        using n2 [OF c] by auto
    qed
  qed
qed

text \<open>The last loop: every count is 2.\<close>

lemma IsTourney_degree_loop:
  "foldl (\<lambda>bDegree2 i. if count ! i \<noteq> (2::int) then False else bDegree2) d is
     \<longleftrightarrow> d \<and> (\<forall>i\<in>set is. count ! i = 2)"
  by (induction "is" arbitrary: d) auto

text \<open>Counting the entries of a table that point at a cell.\<close>

lemma count_list_map_int: "count_list (map int is) (int c) = count_list is c"
  by (induction "is") simp_all

lemma count_list_map_nat:
  "\<forall>v\<in>set vs. 0 \<le> v \<Longrightarrow> count_list (map nat vs) c = count_list vs (int c)"
  by (induction vs) auto

lemma count_list_upt: "count_list [0..<n] c = (if c < n then 1 else 0)"
  by (induction n) simp_all

lemma map_nth_upt: "length xs = n \<Longrightarrow> map (\<lambda>i. xs ! i) [0..<n] = xs"
  by (auto simp: map_nth)

lemma count_list_destinations:
  assumes "length xs = n" "\<forall>v\<in>set xs. 0 \<le> v"
  shows "count_list (map (\<lambda>i. nat (xs ! i)) [0..<n]) c = count_list xs (int c)"
proof -
  have "map (\<lambda>i. nat (xs ! i)) [0..<n] = map nat (map (\<lambda>i. xs ! i) [0..<n])" by simp
  also have "\<dots> = map nat xs" using assms(1) by (simp only: map_nth_upt)
  finally show ?thesis using assms(2) by (simp add: count_list_map_nat)
qed

lemma entries_valid_table:
  "length xs = n \<Longrightarrow> (\<forall>i\<in>set [0..<n]. P (xs ! i)) \<longleftrightarrow> (\<forall>v\<in>set xs. P v)"
  by (auto simp: all_set_conv_all_nth)

lemma map_fst_zip_upt: "length xs = n \<Longrightarrow> map (\<lambda>(i, v). f i) (zip [0..<n] xs) = map f [0..<n]"
proof -
  assume l: "length xs = n"
  have "map (\<lambda>(i, v). f i) (zip [0..<n] xs) = map f (map fst (zip [0..<n] xs))"
    by (simp add: case_prod_unfold)
  also have "\<dots> = map f [0..<n]" using l by simp
  finally show ?thesis .
qed

lemma list_all_snd_zip_upt:
  "length xs = n \<Longrightarrow> list_all (\<lambda>(i, v). P v) (zip [0..<n] xs) \<longleftrightarrow> (\<forall>v\<in>set xs. P v)"
proof -
  assume l: "length xs = n"
  have "list_all (\<lambda>(i, v). P v) (zip [0..<n] xs) \<longleftrightarrow> list_all P (map snd (zip [0..<n] xs))"
    by (simp add: list_all_iff case_prod_unfold)
  also have "map snd (zip [0..<n] xs) = xs" using l by simp
  finally show ?thesis by (simp add: list_all_iff)
qed

lemma IsTourney_undirected_wf:
  assumes wf: "wf_board b" and und: "IsUndirected b"
  shows "IsTourney b = Inr (all_entries_valid b \<and>
           (\<forall>c\<in>{0..<m_nSize b}. degree_both_endpoints b (int c) = 2))"
proof -
  let ?n = "m_nSize b"
  from wf obtain xs where xs: "m_nMove b = Some xs" using wf_board_has_primary by blast
  with wf have lx: "length xs = ?n" by (auto dest: wf_board_primaryD)
  from und have m2: "m_nMove2 b = None" by (simp add: IsUndirected_def)
  have r: "CellIndexInRange b v \<longleftrightarrow> valid_cell b v" for v
    using wf by (rule wf_CellIndexInRange)
  have ent: "table_entries b = zip [0..<?n] xs" by (simp add: table_entries_def xs m2 lx)
  have av: "all_entries_valid b \<longleftrightarrow> (\<forall>v\<in>set xs. valid_cell b v)"
    by (simp add: all_entries_valid_def ent list_all_snd_zip_upt [OF lx])
  have deg: "degree_both_endpoints b (int c) = (if c < ?n then 1 else 0) + count_list xs (int c)"
    for c
    by (simp add: degree_both_endpoints_def ent map_fst_zip_upt [OF lx] lx count_list_map_int
          count_list_upt)
  from IsTourney_undirected_loop_counts [OF xs lx r, of "[0..<?n]" "replicate ?n 0"]
  obtain count' where
    c': "IsTourney_undirected_loop b [0..<?n] (replicate ?n 0) True
            = Inr (count', \<forall>i\<in>set [0..<?n]. valid_cell b (xs ! i))"
      "(\<forall>i\<in>set [0..<?n]. valid_cell b (xs ! i)) \<longrightarrow>
         (\<forall>c<?n. count' ! c = replicate ?n 0 ! c + int (count_list [0..<?n] c)
             + int (count_list (map (\<lambda>i. nat (xs ! i)) [0..<?n]) c))"
    by auto
  have valid: "(\<forall>i\<in>set [0..<?n]. valid_cell b (xs ! i)) \<longleftrightarrow> all_entries_valid b"
    unfolding av by (rule entries_valid_table [OF lx])
  have run: "IsTourney b = Inr (all_entries_valid b \<and> (\<forall>i\<in>set [0..<?n]. count' ! i = 2))"
    unfolding IsTourney_def Let_def IsTourney_degree_loop
    using und by (simp only: c'(1) valid if_True bind_err_def sum.case prod.case) simp
  show ?thesis
  proof (cases "all_entries_valid b")
    case False
    then show ?thesis by (simp add: run)
  next
    case True
    then have nonneg: "\<forall>v\<in>set xs. 0 \<le> v" by (auto simp: av valid_cell_def)
    have cnt: "count' ! c = 2 \<longleftrightarrow> degree_both_endpoints b (int c) = 2" if "c < ?n" for c
    proof -
      from True have "\<forall>i\<in>set [0..<?n]. valid_cell b (xs ! i)" using valid by blast
      with c'(2) that have "count' ! c = replicate ?n 0 ! c + int (count_list [0..<?n] c)
             + int (count_list (map (\<lambda>i. nat (xs ! i)) [0..<?n]) c)" by blast
      then have "count' ! c = 1 + int (count_list xs (int c))"
        using that by (simp add: count_list_upt count_list_destinations [OF lx nonneg])
      then show ?thesis using that by (simp add: deg)
    qed
    show ?thesis using True cnt by (simp add: run)
  qed
qed

lemma IsTourney_directed_wf:
  assumes wf: "wf_board b" and dir: "IsDirected b"
  shows "IsTourney b = Inr (all_entries_valid b \<and>
           (\<forall>c\<in>{0..<m_nSize b}. degree_destinations b (int c) = 2))"
proof -
  let ?n = "m_nSize b"
  from wf obtain xs where xs: "m_nMove b = Some xs" using wf_board_has_primary by blast
  with wf have lx: "length xs = ?n" by (auto dest: wf_board_primaryD)
  from wf dir obtain ys where ys: "m_nMove2 b = Some ys" using wf_board_has_secondary by blast
  with wf have ly: "length ys = ?n" by (auto dest: wf_board_secondaryD)
  from dir have nu: "\<not> IsUndirected b" by (simp add: IsDirected_def)
  have r: "CellIndexInRange b v \<longleftrightarrow> valid_cell b v" for v
    using wf by (rule wf_CellIndexInRange)
  have ent: "table_entries b = zip [0..<?n] xs @ zip [0..<?n] ys"
    by (simp add: table_entries_def xs ys lx ly)
  have av: "all_entries_valid b \<longleftrightarrow> (\<forall>v\<in>set xs. valid_cell b v) \<and> (\<forall>v\<in>set ys. valid_cell b v)"
    by (simp add: all_entries_valid_def ent list_all_snd_zip_upt [OF lx]
          list_all_snd_zip_upt [OF ly])
  have deg: "degree_destinations b (int c) = count_list xs (int c) + count_list ys (int c)" for c
    by (simp add: degree_destinations_def ent lx ly)
  from IsTourney_directed_loop_counts [OF xs lx ys ly r, of "[0..<?n]" "replicate ?n 0"]
  obtain count' where
    c': "IsTourney_directed_loop b [0..<?n] (replicate ?n 0) True
            = Inr (count', \<forall>i\<in>set [0..<?n]. valid_cell b (xs ! i) \<and> valid_cell b (ys ! i))"
      "(\<forall>i\<in>set [0..<?n]. valid_cell b (xs ! i) \<and> valid_cell b (ys ! i)) \<longrightarrow>
         (\<forall>c<?n. count' ! c = replicate ?n 0 ! c
             + int (count_list (map (\<lambda>i. nat (xs ! i)) [0..<?n]) c)
             + int (count_list (map (\<lambda>i. nat (ys ! i)) [0..<?n]) c))"
    by auto
  have "(\<forall>i\<in>set [0..<?n]. valid_cell b (xs ! i) \<and> valid_cell b (ys ! i)) \<longleftrightarrow>
      (\<forall>i\<in>set [0..<?n]. valid_cell b (xs ! i)) \<and> (\<forall>i\<in>set [0..<?n]. valid_cell b (ys ! i))"
    by blast
  then have valid: "(\<forall>i\<in>set [0..<?n]. valid_cell b (xs ! i) \<and> valid_cell b (ys ! i))
      \<longleftrightarrow> all_entries_valid b"
    unfolding av by (simp only: entries_valid_table [OF lx] entries_valid_table [OF ly])
  have run: "IsTourney b = Inr (all_entries_valid b \<and> (\<forall>i\<in>set [0..<?n]. count' ! i = 2))"
    unfolding IsTourney_def Let_def IsTourney_degree_loop
    using nu by (simp only: c'(1) valid if_False bind_err_def sum.case prod.case) simp
  show ?thesis
  proof (cases "all_entries_valid b")
    case False
    then show ?thesis by (simp add: run)
  next
    case True
    then have nonneg: "\<forall>v\<in>set xs. 0 \<le> v" "\<forall>v\<in>set ys. 0 \<le> v"
      by (auto simp: av valid_cell_def)
    have cnt: "count' ! c = 2 \<longleftrightarrow> degree_destinations b (int c) = 2" if "c < ?n" for c
    proof -
      from True have "\<forall>i\<in>set [0..<?n]. valid_cell b (xs ! i) \<and> valid_cell b (ys ! i)"
        using valid by blast
      with c'(2) that have "count' ! c = replicate ?n 0 ! c
             + int (count_list (map (\<lambda>i. nat (xs ! i)) [0..<?n]) c)
             + int (count_list (map (\<lambda>i. nat (ys ! i)) [0..<?n]) c)" by blast
      then have "count' ! c = int (count_list xs (int c)) + int (count_list ys (int c))"
        using that
        by (simp add: count_list_destinations [OF lx nonneg(1)]
              count_list_destinations [OF ly nonneg(2)])
      then show ?thesis unfolding deg by linarith
    qed
    show ?thesis using True cnt by (simp add: run)
  qed
qed

lemma wf_undirected_2x2: "wf_table 4 xs \<Longrightarrow> wf_board (undirected_2x2 xs)"
  by (simp add: undirected_2x2_def wf_board_def)

lemma IsUndirected_undirected_2x2: "IsUndirected (undirected_2x2 xs)"
  by (simp add: undirected_2x2_def IsUndirected_def)

lemma upt_4: "[0..<4] = [0, 1, 2, 3]"
  by (simp add: upt_rec)

lemma Ball_upt_4: "(\<forall>c\<in>{0..<4::nat}. P c) \<longleftrightarrow> P 0 \<and> P 1 \<and> P 2 \<and> P 3"
proof -
  have "{0..<4::nat} = set [0, 1, 2, 3]" unfolding upt_4 [symmetric] by simp
  then show ?thesis by simp
qed

text \<open>
  C2, as the claim states it, fails on directed boards: on the directed board
  that \<open>MakeDirected\<close> makes of the cycle 0, 1, 2, 3 every entry is a valid cell and
  \<open>IsTourney\<close> returns true, but cell 0 is an endpoint of four table entries
  (its own two slots, and the slots of cells 3 and 1 that point at it).
\<close>

theorem IsTourney_directed_degree_counterexample:
  "IsDirected (directed_2x2 [1, 2, 3, 0] [3, 0, 1, 2]) \<and>
   all_entries_valid (directed_2x2 [1, 2, 3, 0] [3, 0, 1, 2]) \<and>
   IsTourney (directed_2x2 [1, 2, 3, 0] [3, 0, 1, 2]) = Inr True \<and>
   degree_both_endpoints (directed_2x2 [1, 2, 3, 0] [3, 0, 1, 2]) 0 = 4"
proof -
  let ?b = "directed_2x2 [1, 2, 3, 0] [3, 0, 1, 2]"
  have e: "table_entries ?b = [(0, 1), (1, 2), (2, 3), (3, 0), (0, 3), (1, 0), (2, 1), (3, 2)]"
    by (simp add: table_entries_def directed_2x2_def upt_4)
  have v: "all_entries_valid ?b"
    by (simp add: all_entries_valid_def e valid_cell_directed_2x2)
  have w: "wf_board ?b" by (simp add: wf_directed_2x2 wf_table_4)
  have d: "\<forall>c\<in>{0..<m_nSize ?b}. degree_destinations ?b (int c) = 2"
    by (simp add: directed_2x2_def Ball_upt_4)
       (simp add: degree_destinations_def e directed_2x2_def [symmetric])
  have "IsTourney ?b = Inr True"
    using IsTourney_directed_wf [OF w IsDirected_directed_2x2] v d by simp
  moreover have "degree_both_endpoints ?b 0 = 4"
    by (simp add: degree_both_endpoints_def e)
  ultimately show ?thesis using v IsDirected_directed_2x2 by simp
qed

text \<open>
  C2, amended. \<open>IsTourney\<close> returns false if an entry of the primary table (and,
  on a directed board, of the secondary table) is outside \<open>0..n-1\<close>. Otherwise, on
  an undirected board it returns true if and only if every cell's degree,
  counted over both endpoints of every table entry, is exactly 2; on a directed
  board it returns true if and only if every cell's degree, counted over the
  destinations of the entries of both tables only, is exactly 2.
\<close>

theorem IsTourney_degree_two:
  assumes "wf_board b"
  shows "(\<not> all_entries_valid b \<longrightarrow> IsTourney b = Inr False) \<and>
    (all_entries_valid b \<and> IsUndirected b \<longrightarrow>
       IsTourney b = Inr (\<forall>c\<in>{0..<m_nSize b}. degree_both_endpoints b (int c) = 2)) \<and>
    (all_entries_valid b \<and> IsDirected b \<longrightarrow>
       IsTourney b = Inr (\<forall>c\<in>{0..<m_nSize b}. degree_destinations b (int c) = 2))"
proof (intro conjI impI)
  show "IsTourney b = Inr False" if "\<not> all_entries_valid b"
  proof (cases "IsUndirected b")
    case True
    then show ?thesis using that IsTourney_undirected_wf [OF assms] by simp
  next
    case False
    then have "IsDirected b" by (simp add: IsDirected_def)
    then show ?thesis using that IsTourney_directed_wf [OF assms] by simp
  qed
  show "IsTourney b = Inr (\<forall>c\<in>{0..<m_nSize b}. degree_both_endpoints b (int c) = 2)"
    if "all_entries_valid b \<and> IsUndirected b"
    using that IsTourney_undirected_wf [OF assms] by simp
  show "IsTourney b = Inr (\<forall>c\<in>{0..<m_nSize b}. degree_destinations b (int c) = 2)"
    if "all_entries_valid b \<and> IsDirected b"
    using that IsTourney_directed_wf [OF assms] by simp
qed

theorem IsTourney_degree_two_witness:
  "wf_board board_2x2 \<and> \<not> all_entries_valid board_2x2 \<and> IsTourney board_2x2 = Inr False \<and>
   wf_board (undirected_2x2 [1, 2, 3, 0]) \<and> all_entries_valid (undirected_2x2 [1, 2, 3, 0]) \<and>
   IsUndirected (undirected_2x2 [1, 2, 3, 0]) \<and>
   IsTourney (undirected_2x2 [1, 2, 3, 0]) = Inr True \<and>
   wf_board (undirected_2x2 [1, 1, 3, 0]) \<and> all_entries_valid (undirected_2x2 [1, 1, 3, 0]) \<and>
   IsTourney (undirected_2x2 [1, 1, 3, 0]) = Inr False \<and>
   wf_board (directed_2x2 [1, 2, 3, 0] [3, 0, 1, 2]) \<and>
   all_entries_valid (directed_2x2 [1, 2, 3, 0] [3, 0, 1, 2]) \<and>
   IsDirected (directed_2x2 [1, 2, 3, 0] [3, 0, 1, 2]) \<and>
   IsTourney (directed_2x2 [1, 2, 3, 0] [3, 0, 1, 2]) = Inr True"
proof -
  let ?u = "undirected_2x2 [1, 2, 3, 0]" and ?x = "undirected_2x2 [1, 1, 3, 0]"
  let ?d = "directed_2x2 [1, 2, 3, 0] [3, 0, 1, 2]"
  have w: "wf_board board_2x2" "wf_board ?u" "wf_board ?x" "wf_board ?d"
    by (simp_all add: wf_board_2x2 wf_undirected_2x2 wf_directed_2x2 wf_table_4)
  have e: "table_entries board_2x2 = [(0, UNUSED), (1, UNUSED), (2, UNUSED), (3, UNUSED)]"
    "table_entries ?u = [(0, 1), (1, 2), (2, 3), (3, 0)]"
    "table_entries ?x = [(0, 1), (1, 1), (2, 3), (3, 0)]"
    "table_entries ?d = [(0, 1), (1, 2), (2, 3), (3, 0), (0, 3), (1, 0), (2, 1), (3, 2)]"
    by (simp_all add: table_entries_def board_2x2_eq undirected_2x2_def directed_2x2_def upt_4)
  have v: "\<not> all_entries_valid board_2x2" "all_entries_valid ?u" "all_entries_valid ?x"
    "all_entries_valid ?d"
    by (simp_all add: all_entries_valid_def e valid_cell_2x2 valid_cell_directed_2x2 UNUSED_def)
       (simp_all add: valid_cell_def undirected_2x2_def)
  have m: "IsUndirected ?u" "IsUndirected ?x" "IsDirected ?d"
    by (simp_all add: IsUndirected_undirected_2x2 IsDirected_directed_2x2)
  have du: "\<forall>c\<in>{0..<m_nSize ?u}. degree_both_endpoints ?u (int c) = 2"
    by (simp add: undirected_2x2_def Ball_upt_4)
       (simp add: degree_both_endpoints_def e undirected_2x2_def [symmetric])
  have dx: "\<not> (\<forall>c\<in>{0..<m_nSize ?x}. degree_both_endpoints ?x (int c) = 2)"
    by (simp add: undirected_2x2_def Ball_upt_4)
       (simp add: degree_both_endpoints_def e undirected_2x2_def [symmetric])
  have dd: "\<forall>c\<in>{0..<m_nSize ?d}. degree_destinations ?d (int c) = 2"
    by (simp add: directed_2x2_def Ball_upt_4)
       (simp add: degree_destinations_def e directed_2x2_def [symmetric])
  from IsTourney_degree_two [OF w(1)] v(1) have 1: "IsTourney board_2x2 = Inr False" by blast
  from IsTourney_degree_two [OF w(2)] v(2) m(1) du have 2: "IsTourney ?u = Inr True" by simp
  from IsTourney_degree_two [OF w(3)] v(3) m(2) dx have 3: "IsTourney ?x = Inr False" by simp
  from IsTourney_degree_two [OF w(4)] v(4) m(3) dd have 4: "IsTourney ?d = Inr True" by simp
  from w v m 1 2 3 4 show ?thesis by blast
qed

section \<open>The tour test\<close>

text \<open>One iteration of the loop of \<open>IsTour\<close> on a well-formed board.\<close>

lemma IsTour_loop_step:
  assumes wf: "wf_board b" and xs: "m_nMove b = Some xs"
  shows "IsTour_loop b prev cur count =
     (if count < m_nSize b \<and> valid_cell b cur \<and> cur \<noteq> 0 then
        (if xs ! nat cur = prev \<and> IsUndirected b then Inr False
         else IsTour_loop b cur (next_cell b prev cur) (count + 1))
      else Inr (count = m_nSize b \<and> cur = 0))"
proof (cases "count < m_nSize b \<and> valid_cell b cur \<and> cur \<noteq> 0")
  case False
  then show ?thesis
    by (subst IsTour_loop.simps) (auto simp: wf_CellIndexInRange [OF wf])
next
  case True
  from wf xs have lx: "length xs = m_nSize b" by (auto dest: wf_board_primaryD)
  from True have c: "0 \<le> cur" "cur < int (m_nSize b)" by (auto simp: valid_cell_def)
  have rd: "read_table (m_nMove b) cur = Inr (xs ! nat cur)"
    using c lx by (simp add: xs read_table_Some)
  show ?thesis
  proof (cases "IsUndirected b")
    case und: True
    then have "next_cell b prev cur = xs ! nat cur"
      by (simp add: next_cell_def xs IsUndirected_def)
    then show ?thesis
      using True und rd
      by (subst IsTour_loop.simps) (simp add: wf_CellIndexInRange [OF wf])
  next
    case dir: False
    then obtain ys where ys: "m_nMove2 b = Some ys" by (auto simp: IsUndirected_def)
    with wf have ly: "length ys = m_nSize b" by (auto dest: wf_board_secondaryD)
    have rd2: "read_table (m_nMove2 b) cur = Inr (ys ! nat cur)"
      using c ly by (simp add: ys read_table_Some)
    have "next_cell b prev cur = (if xs ! nat cur = prev then ys ! nat cur else xs ! nat cur)"
      by (simp add: next_cell_def xs ys)
    then show ?thesis
      using True dir rd rd2
      by (subst IsTour_loop.simps) (simp add: wf_CellIndexInRange [OF wf])
  qed
qed

lemma IsTour_wf:
  assumes wf: "wf_board b" and xs: "m_nMove b = Some xs" and n: "0 < m_nSize b"
  shows "IsTour b = IsTour_loop b 0 (xs ! 0) 1"
proof -
  from wf xs have "length xs = m_nSize b" by (auto dest: wf_board_primaryD)
  with n show ?thesis by (simp add: IsTour_def xs read_table_def bind_err_def)
qed

text \<open>On a well-formed board the loop returns.\<close>

lemma IsTour_loop_returns:
  assumes wf: "wf_board b"
  shows "\<exists>r. IsTour_loop b prev cur count = Inr r"
proof -
  from wf obtain xs where xs: "m_nMove b = Some xs" using wf_board_has_primary by blast
  show ?thesis
  proof (induction k \<equiv> "m_nSize b - count" arbitrary: prev cur count)
    case 0
    then show ?case by (subst IsTour_loop_step [OF wf xs]) simp
  next
    case (Suc k)
    then have "k = m_nSize b - (count + 1)" by simp
    from Suc.hyps(1) [OF this] show ?case
      by (subst IsTour_loop_step [OF wf xs]) auto
  qed
qed

lemma hd_in_butlast: "2 \<le> length w \<Longrightarrow> hd w \<in> set (butlast w)"
  by (cases w) (auto simp: Suc_le_eq)

text \<open>
  A walk of as many steps as the loop has left, that avoids cell 0 until its last
  step and, on an undirected board, never steps back, makes the loop return true.
\<close>

lemma IsTour_loop_true:
  assumes wf: "wf_board b" and xs: "m_nMove b = Some xs"
  shows "count \<le> m_nSize b \<Longrightarrow> 1 \<le> count \<Longrightarrow>
    length (walk_cells b (m_nSize b - count + 1) prev cur) = m_nSize b - count + 1 \<Longrightarrow>
    distinct (walk_cells b (m_nSize b - count + 1) prev cur) \<Longrightarrow>
    last (walk_cells b (m_nSize b - count + 1) prev cur) = 0 \<Longrightarrow>
    prev \<notin> set (butlast (walk_cells b (m_nSize b - count + 1) prev cur)) \<Longrightarrow>
    prev \<noteq> 0 \<or> count + 1 < m_nSize b \<or> count = m_nSize b \<Longrightarrow>
    IsTour_loop b prev cur count = Inr True"
proof (induction k \<equiv> "m_nSize b - count" arbitrary: prev cur count)
  case 0
  then have "count = m_nSize b" by simp
  with 0 show ?case by (subst IsTour_loop_step [OF wf xs]) simp
next
  case (Suc k)
  let ?n = "m_nSize b"
  from Suc.hyps(2) have lt: "count < ?n" and k: "k = ?n - (count + 1)"
    and sk: "?n - count + 1 = Suc (Suc k)" by simp_all
  let ?w' = "walk_cells b (?n - (count + 1) + 1) cur (next_cell b prev cur)"
  have k1: "?n - (count + 1) + 1 = Suc k" using k lt by simp
  from Suc.prems(3) have v: "valid_cell b cur"
    unfolding sk by (auto split: if_splits)
  then have w: "walk_cells b (?n - count + 1) prev cur = cur # ?w'"
    unfolding sk k1 by simp
  have len': "length ?w' = ?n - (count + 1) + 1" using Suc.prems(3) unfolding w by simp
  then have ne: "?w' \<noteq> []" by auto
  have d': "distinct ?w'" and cn: "cur \<notin> set ?w'" using Suc.prems(4) unfolding w by simp_all
  have l': "last ?w' = 0" using Suc.prems(5) ne unfolding w by simp
  have c0: "cur \<noteq> 0" using cn l' ne last_in_set [OF ne] by auto
  have p': "cur \<notin> set (butlast ?w')" using cn by (auto dest: in_set_butlastD)
  have hd: "hd ?w' = next_cell b prev cur" unfolding k1 by simp
  have nb: "next_cell b prev cur \<noteq> prev"
  proof (cases "k = 0")
    case True
    then have "?w' = [next_cell b prev cur]" unfolding k1 by simp
    then have "next_cell b prev cur = 0" using l' by simp
    moreover have "prev \<noteq> 0" using Suc.prems(7) True k lt by auto
    ultimately show ?thesis by simp
  next
    case False
    with len' k1 have "2 \<le> length ?w'" by linarith
    then have "hd ?w' \<in> set (butlast ?w')" by (rule hd_in_butlast)
    then have "next_cell b prev cur \<in> set (butlast (cur # ?w'))" using hd ne by simp
    with Suc.prems(6) show ?thesis unfolding w by auto
  qed
  have nu: "\<not> (xs ! nat cur = prev \<and> IsUndirected b)"
  proof
    assume a: "xs ! nat cur = prev \<and> IsUndirected b"
    then have "next_cell b prev cur = xs ! nat cur"
      by (simp add: next_cell_def xs IsUndirected_def)
    with a nb show False by simp
  qed
  have "IsTour_loop b cur (next_cell b prev cur) (count + 1) = Inr True"
  proof (rule Suc.hyps(1) [OF k])
    show "count + 1 \<le> ?n" "1 \<le> count + 1" using lt by simp_all
    show "length ?w' = ?n - (count + 1) + 1" by (rule len')
    show "distinct ?w'" by (rule d')
    show "last ?w' = 0" by (rule l')
    show "cur \<notin> set (butlast ?w')" by (rule p')
    show "cur \<noteq> 0 \<or> count + 1 + 1 < ?n \<or> count + 1 = ?n" using c0 by simp
  qed
  then show ?case
    using lt v c0 nu by (subst IsTour_loop_step [OF wf xs]) simp
qed

text \<open>What the loop has walked when it returns true.\<close>

lemma IsTour_loop_walk:
  assumes wf: "wf_board b" and xs: "m_nMove b = Some xs"
  shows "count \<le> m_nSize b \<Longrightarrow> 1 \<le> count \<Longrightarrow> IsTour_loop b prev cur count = Inr True \<Longrightarrow>
    length (walk_cells b (m_nSize b - count + 1) prev cur) = m_nSize b - count + 1 \<and>
    last (walk_cells b (m_nSize b - count + 1) prev cur) = 0 \<and>
    0 \<notin> set (butlast (walk_cells b (m_nSize b - count + 1) prev cur)) \<and>
    list_all (valid_cell b) (walk_cells b (m_nSize b - count + 1) prev cur)"
proof (induction k \<equiv> "m_nSize b - count" arbitrary: prev cur count)
  case 0
  then have c: "count = m_nSize b" by simp
  with 0 have "cur = 0" by (subst (asm) IsTour_loop_step [OF wf xs]) simp
  then show ?case using c 0 by (simp add: valid_cell_def)
next
  case (Suc k)
  let ?n = "m_nSize b"
  from Suc.hyps(2) have lt: "count < ?n" and k: "k = ?n - (count + 1)"
    and sk: "?n - count + 1 = Suc (Suc k)" by simp_all
  define w' where "w' = walk_cells b (?n - (count + 1) + 1) cur (next_cell b prev cur)"
  have k1: "?n - (count + 1) + 1 = Suc k" using k lt by simp
  note st = IsTour_loop_step [OF wf xs, of prev cur count]
  from Suc.prems(3) lt have "valid_cell b cur \<and> cur \<noteq> 0 \<and>
      IsTour_loop b cur (next_cell b prev cur) (count + 1) = Inr True"
    unfolding st by (simp split: if_splits)
  then have v: "valid_cell b cur" and c0: "cur \<noteq> 0"
    and rec: "IsTour_loop b cur (next_cell b prev cur) (count + 1) = Inr True"
    by blast+
  have w: "walk_cells b (?n - count + 1) prev cur = cur # w'"
    unfolding sk w'_def k1 using v by simp
  from lt have "count + 1 \<le> ?n" "1 \<le> count + 1" by simp_all
  note Suc.hyps(1) [OF k this rec, folded w'_def]
  then have ih: "length w' = ?n - (count + 1) + 1" "last w' = 0" "0 \<notin> set (butlast w')"
    "list_all (valid_cell b) w'" by blast+
  from ih(1) have ne: "w' \<noteq> []" by auto
  show ?case
    unfolding w using ih ne v c0 lt by simp
qed

text \<open>On an undirected board the walk is the orbit of its first cell under the table.\<close>

lemma walk_cells_undirected_nth:
  assumes und: "IsUndirected b" and xs: "m_nMove b = Some xs"
  shows "length (walk_cells b k prev cur) = k \<Longrightarrow> j < k \<Longrightarrow>
    walk_cells b k prev cur ! j = ((\<lambda>c. xs ! nat c) ^^ j) cur"
proof -
  define f where "f = (\<lambda>c. xs ! nat c)"
  have nx: "next_cell b prev cur = f cur" for prev cur
    using und by (simp add: next_cell_def xs IsUndirected_def f_def)
  have "length (walk_cells b k prev cur) = k \<Longrightarrow> j < k \<Longrightarrow>
    walk_cells b k prev cur ! j = (f ^^ j) cur"
  proof (induction k arbitrary: prev cur j)
    case 0
    then show ?case by simp
  next
    case (Suc k)
    show ?case
    proof (cases j)
      case 0
      then show ?thesis by simp
    next
      case (Suc j')
      with Suc.prems have j': "j' < k" by simp
      then have "k \<noteq> 0" by simp
      with Suc.prems(1) have v: "valid_cell b cur"
        and l: "length (walk_cells b k cur (f cur)) = k"
        by (auto simp: nx split: if_splits)
      have "walk_cells b (Suc k) prev cur ! j = walk_cells b k cur (f cur) ! j'"
        using v Suc by (simp add: nx)
      also have "\<dots> = (f ^^ j') (f cur)" by (rule Suc.IH [OF l j'])
      also have "\<dots> = (f ^^ j) cur" unfolding Suc by (simp add: funpow_swap1)
      finally show ?thesis .
    qed
  qed
  then show "length (walk_cells b k prev cur) = k \<Longrightarrow> j < k \<Longrightarrow>
    walk_cells b k prev cur ! j = ((\<lambda>c. xs ! nat c) ^^ j) cur"
    unfolding f_def .
qed

text \<open>
  A point that comes back under \<open>f\<close> after \<open>n\<close> steps and not before runs through
  \<open>n\<close> different points.
\<close>

lemma funpow_first_return_distinct:
  fixes f :: "'a \<Rightarrow> 'a"
  assumes ret: "(f ^^ n) x = x" and first: "\<And>m. 0 < m \<Longrightarrow> m < n \<Longrightarrow> (f ^^ m) x \<noteq> x"
    and ab: "0 < a" "a < c" "c \<le> n"
  shows "(f ^^ a) x \<noteq> (f ^^ c) x"
proof
  assume e: "(f ^^ a) x = (f ^^ c) x"
  have "(f ^^ ((n - c) + a)) x = (f ^^ (n - c)) ((f ^^ a) x)"
    by (simp only: funpow_add o_apply)
  also have "\<dots> = (f ^^ (n - c)) ((f ^^ c) x)" by (simp only: e)
  also have "\<dots> = (f ^^ ((n - c) + c)) x" by (simp only: funpow_add o_apply)
  also have "(n - c) + c = n" using ab(3) by simp
  also have "(f ^^ n) x = x" by (rule ret)
  finally have again: "(f ^^ ((n - c) + a)) x = x" .
  have "0 < (n - c) + a" "(n - c) + a < n" using ab by simp_all
  from first [OF this] again show False by contradiction
qed

lemma IsTour_undirected_hamiltonian:
  assumes wf: "wf_board b" and und: "IsUndirected b" and n: "0 < m_nSize b"
    and t: "IsTour b = Inr True"
  shows "hamiltonian_cycle b"
proof -
  let ?n = "m_nSize b"
  from wf obtain xs where xs: "m_nMove b = Some xs" using wf_board_has_primary by blast
  define f where "f = (\<lambda>c. xs ! nat c)"
  define w where "w = tour_walk b"
  have f0: "xs ! 0 = f 0" by (simp add: f_def)
  have tw: "w = walk_cells b (?n - 1 + 1) 0 (xs ! 0)"
    using n by (simp add: w_def tour_walk_def xs)
  have tw': "w = walk_cells b ?n 0 (xs ! 0)" using tw n by simp
  from t have "IsTour_loop b 0 (xs ! 0) 1 = Inr True" by (simp add: IsTour_wf [OF wf xs n])
  from IsTour_loop_walk [OF wf xs _ _ this] n
  have w: "length w = ?n" "last w = 0" "0 \<notin> set (butlast w)" "list_all (valid_cell b) w"
    unfolding tw by simp_all
  have nth: "w ! j = (f ^^ (Suc j)) 0" if "j < ?n" for j
  proof -
    have "length (walk_cells b ?n 0 (xs ! 0)) = ?n" using w(1) unfolding tw' .
    from walk_cells_undirected_nth [OF und xs this that]
    have "w ! j = (f ^^ j) (f 0)" unfolding tw' f_def by simp
    then show ?thesis by (simp add: funpow_swap1)
  qed
  have ne: "w \<noteq> []" using w(1) n by auto
  have ret: "(f ^^ ?n) 0 = 0"
  proof -
    have "last w = w ! (?n - 1)" using ne w(1) by (simp add: last_conv_nth)
    also have "\<dots> = (f ^^ (Suc (?n - 1))) 0" using n by (intro nth) simp
    also have "Suc (?n - 1) = ?n" using n by simp
    finally show ?thesis using w(2) by simp
  qed
  have first: "(f ^^ m) 0 \<noteq> 0" if "0 < m" "m < ?n" for m
  proof -
    have "m - 1 < length (butlast w)" using that w(1) by simp
    then have "butlast w ! (m - 1) \<in> set (butlast w)" by (rule nth_mem)
    moreover have "butlast w ! (m - 1) = w ! (m - 1)"
      using that w(1) by (simp add: nth_butlast)
    moreover have "w ! (m - 1) = (f ^^ (Suc (m - 1))) 0" using that by (intro nth) simp
    moreover have "Suc (m - 1) = m" using that by simp
    ultimately show ?thesis using w(3) by metis
  qed
  have neq: "w ! p \<noteq> w ! q" if "p < q" "q < ?n" for p q
  proof -
    have "(f ^^ Suc p) 0 \<noteq> (f ^^ Suc q) 0"
      using that by (intro funpow_first_return_distinct [OF ret first]) simp_all
    then show ?thesis using that nth [of p] nth [of q] by simp
  qed
  have "distinct w"
    unfolding distinct_conv_nth
  proof (intro allI impI)
    fix i j assume ij: "i < length w" "j < length w" "i \<noteq> j"
    from ij consider "i < j" | "j < i" by linarith
    then show "w ! i \<noteq> w ! j"
    proof cases
      case 1
      then show ?thesis using neq [of i j] ij w(1) by simp
    next
      case 2
      then show ?thesis using neq [of j i] ij w(1) by simp
    qed
  qed
  with w show ?thesis by (simp add: hamiltonian_cycle_def w_def)
qed

lemma hamiltonian_IsTour:
  assumes wf: "wf_board b" and n: "3 \<le> m_nSize b" and h: "hamiltonian_cycle b"
  shows "IsTour b = Inr True"
proof -
  let ?n = "m_nSize b"
  from wf obtain xs where xs: "m_nMove b = Some xs" using wf_board_has_primary by blast
  let ?w = "tour_walk b"
  have tw: "?w = walk_cells b (?n - 1 + 1) 0 (xs ! 0)" using n by (simp add: tour_walk_def xs)
  from h have w: "length ?w = ?n" "distinct ?w" "last ?w = 0"
    by (simp_all add: hamiltonian_cycle_def)
  have ne: "?w \<noteq> []" using w(1) n by auto
  have "distinct (butlast ?w @ [last ?w])" using w(2) ne by simp
  then have z: "0 \<notin> set (butlast ?w)" using w(3) by simp
  have "IsTour_loop b 0 (xs ! 0) 1 = Inr True"
  proof (rule IsTour_loop_true [OF wf xs])
    show "1 \<le> ?n" "(1::nat) \<le> 1" using n by simp_all
    show "length (walk_cells b (?n - 1 + 1) 0 (xs ! 0)) = ?n - 1 + 1"
      using w(1) n unfolding tw by simp
    show "distinct (walk_cells b (?n - 1 + 1) 0 (xs ! 0))" using w(2) unfolding tw .
    show "last (walk_cells b (?n - 1 + 1) 0 (xs ! 0)) = 0" using w(3) unfolding tw .
    show "0 \<notin> set (butlast (walk_cells b (?n - 1 + 1) 0 (xs ! 0)))" using z unfolding tw .
    show "(0::int) \<noteq> 0 \<or> 1 + 1 < ?n \<or> 1 = ?n" using n by simp
  qed
  then show ?thesis using n by (simp add: IsTour_wf [OF wf xs])
qed

lemma hamiltonian_cycle_all_cells:
  assumes h: "hamiltonian_cycle b"
  shows "set (tour_walk b) = {0..<int (m_nSize b)}"
proof -
  let ?w = "tour_walk b"
  from h have w: "length ?w = m_nSize b" "distinct ?w" "list_all (valid_cell b) ?w"
    by (simp_all add: hamiltonian_cycle_def)
  have sub: "set ?w \<subseteq> {0..<int (m_nSize b)}"
    using w(3) by (auto simp: list_all_iff valid_cell_def)
  have "card (set ?w) = m_nSize b" using w(1,2) by (simp add: distinct_card)
  then have "card (set ?w) = card {0..<int (m_nSize b)}" by simp
  with sub show ?thesis by (intro card_subset_eq) simp_all
qed

text \<open>The loop on the table of the cycle \<open>0 \<rightarrow> 1 \<rightarrow> \<dots> \<rightarrow> n-1 \<rightarrow> 0\<close>.\<close>

lemma cycle_table_nth: "i < n \<Longrightarrow> cycle_table n ! i = int ((i + 1) mod n)"
  by (simp add: cycle_table_def)

lemma length_cycle_table [simp]: "length (cycle_table n) = n"
  by (simp add: cycle_table_def)

lemma IsTour_loop_cycle:
  assumes wf: "wf_board b" and xs: "m_nMove b = Some (cycle_table (m_nSize b))"
    and n: "3 \<le> m_nSize b"
  shows "1 \<le> c \<Longrightarrow> c \<le> m_nSize b \<Longrightarrow>
    IsTour_loop b (int c - 1) (int (c mod m_nSize b)) c = Inr True"
proof (induction k \<equiv> "m_nSize b - c" arbitrary: c)
  case 0
  then have "c = m_nSize b" by simp
  then show ?case by (subst IsTour_loop_step [OF wf xs]) simp
next
  case (Suc k)
  let ?n = "m_nSize b"
  from Suc.hyps(2) have lt: "c < ?n" and k: "k = ?n - (c + 1)" by simp_all
  have cur: "int (c mod ?n) = int c" using lt by simp
  have v: "valid_cell b (int c)" "int c \<noteq> 0" using lt Suc.prems by (simp_all add: valid_cell_def)
  have nth: "cycle_table ?n ! nat (int c) = int ((c + 1) mod ?n)"
    using lt by (simp add: cycle_table_nth)
  have nb: "int ((c + 1) mod ?n) \<noteq> int c - 1"
  proof (cases "c + 1 < ?n")
    case True
    then show ?thesis by simp
  next
    case False
    with lt have "c + 1 = ?n" by simp
    then show ?thesis using n by auto
  qed
  have nx: "next_cell b (int c - 1) (int c) = int ((c + 1) mod ?n)"
    using nth nb by (simp add: next_cell_def xs split: option.splits)
  have "IsTour_loop b (int (c + 1) - 1) (int ((c + 1) mod ?n)) (c + 1) = Inr True"
    using lt Suc.prems by (intro Suc.hyps(1) [OF k]) simp_all
  then have "IsTour_loop b (int c) (int ((c + 1) mod ?n)) (c + 1) = Inr True" by simp
  then show ?case
    unfolding cur using lt v nth nb nx
    by (subst IsTour_loop_step [OF wf xs]) simp
qed

lemma IsTour_cycle_table:
  assumes wf: "wf_board b" and xs: "m_nMove b = Some (cycle_table (m_nSize b))"
    and n: "3 \<le> m_nSize b"
  shows "IsTour b = Inr True"
proof -
  have "cycle_table (m_nSize b) ! 0 = int (1 mod m_nSize b)"
    using n cycle_table_nth [of 0 "m_nSize b"] by simp
  moreover have "IsTour_loop b (int 1 - 1) (int (1 mod m_nSize b)) 1 = Inr True"
    using n by (intro IsTour_loop_cycle [OF wf xs n]) simp_all
  ultimately show ?thesis
    using n by (simp add: IsTour_wf [OF wf xs])
qed

lemma IsTour_first_move_unused:
  assumes wf: "wf_board b" and xs: "m_nMove b = Some xs" and u: "xs ! 0 = UNUSED"
    and n: "2 \<le> m_nSize b"
  shows "IsTour b = Inr False"
proof -
  have "\<not> valid_cell b UNUSED" by (simp add: valid_cell_def UNUSED_def)
  then have "IsTour_loop b 0 UNUSED 1 = Inr False"
    using n by (subst IsTour_loop_step [OF wf xs]) simp
  then show ?thesis using n u by (simp add: IsTour_wf [OF wf xs])
qed

lemma IsTour_undirected_iff:
  assumes wf: "wf_board b" and n: "3 \<le> m_nSize b" and und: "IsUndirected b"
  shows "IsTour b = Inr (hamiltonian_cycle b)"
proof -
  from wf obtain xs where xs: "m_nMove b = Some xs" using wf_board_has_primary by blast
  from n have n0: "0 < m_nSize b" by simp
  from IsTour_loop_returns [OF wf] obtain r where "IsTour_loop b 0 (xs ! 0) 1 = Inr r" by blast
  then have r: "IsTour b = Inr r" by (simp add: IsTour_wf [OF wf xs n0])
  show ?thesis
  proof (cases r)
    case True
    with r IsTour_undirected_hamiltonian [OF wf und n0] show ?thesis by simp
  next
    case False
    with r hamiltonian_IsTour [OF wf n] show ?thesis by auto
  qed
qed

text \<open>
  C1, as the claim states it, fails in two ways. On the undirected board of 2
  cells (an even size) whose primary table is the cycle \<open>0 \<rightarrow> 1 \<rightarrow> 0\<close>, \<open>IsTour\<close>
  returns false: the move of cell 1 leads back to the cell the walk came from.
  And on a directed board \<open>IsTour\<close> can return true although the walk visits a
  cell twice and another never: here cells 1, 2, 1, 0, and never cell 3.
\<close>

theorem IsTour_counterexample:
  "m_nSize (cycle_board 2 1) = 2 \<and> IsUndirected (cycle_board 2 1) \<and>
   m_nMove (cycle_board 2 1) = Some [1, 0] \<and>
   IsTour (cycle_board 2 1) = Inr False \<and>
   IsTour (directed_2x2 [1, 2, 1, UNUSED] [UNUSED, 0, 1, UNUSED]) = Inr True \<and>
   tour_walk (directed_2x2 [1, 2, 1, UNUSED] [UNUSED, 0, 1, UNUSED]) = [1, 2, 1, 0] \<and>
   \<not> hamiltonian_cycle (directed_2x2 [1, 2, 1, UNUSED] [UNUSED, 0, 1, UNUSED])"
proof -
  let ?c = "cycle_board 2 1" and ?d = "directed_2x2 [1, 2, 1, UNUSED] [UNUSED, 0, 1, UNUSED]"
  have "[0..<2] = [0, 1]" by (simp add: upt_rec)
  then have t: "cycle_table 2 = [1, 0]" by (simp add: cycle_table_def)
  have c: "m_nSize ?c = 2" "IsUndirected ?c" "m_nMove ?c = Some [1, 0]"
    by (simp_all add: cycle_board_def IsUndirected_def t)
  have 1: "IsTour ?c = Inr False" by code_simp
  have 2: "IsTour ?d = Inr True" by code_simp
  have 3: "tour_walk ?d = [1, 2, 1, 0]" by code_simp
  have 4: "\<not> hamiltonian_cycle ?d" by (simp add: hamiltonian_cycle_def 3)
  from c 1 2 3 4 show ?thesis by simp
qed

text \<open>
  C1, amended. For every undirected board of size \<open>n \<ge> 3\<close> (so for every even
  size \<open>n \<ge> 4\<close>), \<open>IsTour()\<close> returns true if and only if the walk that starts at
  cell 0 and follows the recorded moves makes \<open>n\<close> steps through cells of the
  board, visits no cell twice and ends at cell 0: the moves form a single
  Hamiltonian cycle, and the walk visits every cell. On a directed board of such
  a size \<open>IsTour()\<close> returns true whenever the walk, which there takes the
  secondary slot where the primary one leads back, is such a cycle. In
  particular, on boards of both kinds, \<open>IsTour()\<close> is true when the primary
  table is the cycle \<open>0 \<rightarrow> 1 \<rightarrow> \<dots> \<rightarrow> n-1 \<rightarrow> 0\<close>, and false when cell 0's move in
  that table is set to \<open>UNUSED\<close>.
\<close>

theorem IsTour_hamiltonian_cycle:
  assumes "wf_board b" and "3 \<le> m_nSize b"
  shows "(IsUndirected b \<longrightarrow> IsTour b = Inr (hamiltonian_cycle b)) \<and>
    (IsDirected b \<and> hamiltonian_cycle b \<longrightarrow> IsTour b = Inr True) \<and>
    (hamiltonian_cycle b \<longrightarrow> set (tour_walk b) = {0..<int (m_nSize b)}) \<and>
    (m_nMove b = Some (cycle_table (m_nSize b)) \<longrightarrow> IsTour b = Inr True) \<and>
    (m_nMove b = Some ((cycle_table (m_nSize b))[0 := UNUSED]) \<longrightarrow> IsTour b = Inr False)"
proof (intro conjI impI)
  show "IsTour b = Inr (hamiltonian_cycle b)" if "IsUndirected b"
    using assms that by (rule IsTour_undirected_iff)
  show "IsTour b = Inr True" if "IsDirected b \<and> hamiltonian_cycle b"
    using assms that by (intro hamiltonian_IsTour) simp_all
  show "set (tour_walk b) = {0..<int (m_nSize b)}" if "hamiltonian_cycle b"
    using that by (rule hamiltonian_cycle_all_cells)
  show "IsTour b = Inr True" if "m_nMove b = Some (cycle_table (m_nSize b))"
    using assms(1) that assms(2) by (rule IsTour_cycle_table)
  show "IsTour b = Inr False" if "m_nMove b = Some ((cycle_table (m_nSize b))[0 := UNUSED])"
    using assms(1) that
  proof (rule IsTour_first_move_unused)
    show "(cycle_table (m_nSize b))[0 := UNUSED] ! 0 = UNUSED" using assms(2) by simp
    show "2 \<le> m_nSize b" using assms(2) by simp
  qed
qed

theorem IsTour_hamiltonian_cycle_witness:
  "wf_board (cycle_board 2 2) \<and> 3 \<le> m_nSize (cycle_board 2 2) \<and>
   IsUndirected (cycle_board 2 2) \<and>
   m_nMove (cycle_board 2 2) = Some (cycle_table (m_nSize (cycle_board 2 2))) \<and>
   tour_walk (cycle_board 2 2) = [1, 2, 3, 0] \<and>
   hamiltonian_cycle (cycle_board 2 2) \<and> IsTour (cycle_board 2 2) = Inr True \<and>
   IsTour ((cycle_board 2 2)\<lparr>m_nMove := Some ((cycle_table 4)[0 := UNUSED])\<rparr>) = Inr False \<and>
   wf_board (directed_2x2 [1, 2, 3, 0] [3, 0, 1, 2]) \<and>
   IsDirected (directed_2x2 [1, 2, 3, 0] [3, 0, 1, 2]) \<and>
   hamiltonian_cycle (directed_2x2 [1, 2, 3, 0] [3, 0, 1, 2]) \<and>
   IsTour (directed_2x2 [1, 2, 3, 0] [3, 0, 1, 2]) = Inr True \<and>
   hamiltonian_cycle (undirected_2x2 [1, 0, 3, 2]) = False \<and>
   IsTour (undirected_2x2 [1, 0, 3, 2]) = Inr False"
proof -
  let ?c = "cycle_board 2 2" and ?d = "directed_2x2 [1, 2, 3, 0] [3, 0, 1, 2]"
  let ?u = "?c\<lparr>m_nMove := Some ((cycle_table 4)[0 := UNUSED])\<rparr>"
  let ?x = "undirected_2x2 [1, 0, 3, 2]"
  have t: "cycle_table 4 = [1, 2, 3, 0]" by (simp add: cycle_table_def upt_4)
  have c: "m_nSize ?c = 4" "IsUndirected ?c" "m_nMove ?c = Some (cycle_table (m_nSize ?c))"
    by (simp_all add: cycle_board_def IsUndirected_def)
  have wc: "wf_board ?c" "wf_board ?u"
    by (simp_all add: cycle_board_def wf_board_def wf_table_4 t)
  have wd: "wf_board ?d" "wf_board ?x"
    by (simp_all add: wf_table_4 wf_directed_2x2 wf_undirected_2x2)
  note w = wc wd
  have n: "3 \<le> m_nSize ?c" "3 \<le> m_nSize ?u" "3 \<le> m_nSize ?d" "3 \<le> m_nSize ?x"
    by (simp_all add: cycle_board_def directed_2x2_def undirected_2x2_def)
  have tw: "tour_walk ?c = [1, 2, 3, 0]" by code_simp
  have hc: "hamiltonian_cycle ?c" by (simp add: hamiltonian_cycle_def tw c valid_cell_def)
  have twd: "tour_walk ?d = [1, 2, 3, 0]" by code_simp
  have hd: "hamiltonian_cycle ?d"
    by (simp add: hamiltonian_cycle_def twd valid_cell_directed_2x2) (simp add: directed_2x2_def)
  have twx: "tour_walk ?x = [1, 0, 1, 0]" by code_simp
  have hx: "\<not> hamiltonian_cycle ?x" by (simp add: hamiltonian_cycle_def twx)
  have u: "m_nMove ?u = Some ((cycle_table (m_nSize ?u))[0 := UNUSED])"
    by (simp add: cycle_board_def)
  from IsTour_hamiltonian_cycle [OF w(1) n(1)] c(3)
  have 1: "IsTour ?c = Inr True" by blast
  from IsTour_hamiltonian_cycle [OF w(2) n(2)] u
  have 2: "IsTour ?u = Inr False" by blast
  from IsTour_hamiltonian_cycle [OF w(3) n(3)] hd IsDirected_directed_2x2
  have 3: "IsTour ?d = Inr True" by blast
  from IsTour_hamiltonian_cycle [OF w(4) n(4)] hx IsUndirected_undirected_2x2
  have 4: "IsTour ?x = Inr False" by simp
  from w n c tw hc hd hx 1 2 3 4 IsDirected_directed_2x2 show ?thesis by simp
qed

section \<open>From undirected to directed and back\<close>

lemma distinct_count_list_le_1: "(\<And>x. count_list xs x \<le> 1) \<Longrightarrow> distinct xs"
proof (induction xs)
  case Nil
  then show ?case by simp
next
  case (Cons a xs)
  from Cons.prems [of a] have "count_list xs a = 0" by simp
  then have "a \<notin> set xs" by (simp add: count_list_0_iff)
  moreover have "count_list xs x \<le> 1" for x
    using Cons.prems [of x] by (simp split: if_splits)
  ultimately show ?case using Cons.IH by simp
qed

lemma count_list_distinct: "distinct xs \<Longrightarrow> x \<in> set xs \<Longrightarrow> count_list xs x = 1"
  by (induction xs) auto

text \<open>
  The table of an undirected tourney is a permutation of the cells: every entry
  is a valid cell and every cell is the entry of exactly one slot.
\<close>

lemma undirected_tourney_permutation:
  assumes wf: "wf_board b" and und: "IsUndirected b" and t: "IsTourney b = Inr True"
    and xs: "m_nMove b = Some xs"
  shows "\<forall>i<m_nSize b. 0 \<le> xs ! i \<and> xs ! i < int (m_nSize b)"
    and "distinct xs"
    and "\<forall>c<m_nSize b. count_list xs (int c) = 1"
proof -
  let ?n = "m_nSize b"
  from wf xs have lx: "length xs = ?n" by (auto dest: wf_board_primaryD)
  from und have m2: "m_nMove2 b = None" by (simp add: IsUndirected_def)
  have ent: "table_entries b = zip [0..<?n] xs" by (simp add: table_entries_def xs m2 lx)
  from t IsTourney_undirected_wf [OF wf und]
  have av: "all_entries_valid b"
    and deg: "\<forall>c\<in>{0..<?n}. degree_both_endpoints b (int c) = 2" by simp_all
  from av have v: "\<forall>v\<in>set xs. valid_cell b v"
    by (simp add: all_entries_valid_def ent list_all_snd_zip_upt [OF lx])
  then show valid: "\<forall>i<?n. 0 \<le> xs ! i \<and> xs ! i < int ?n"
    using lx by (auto simp: valid_cell_def)
  have "degree_both_endpoints b (int c) = (if c < ?n then 1 else 0) + count_list xs (int c)" for c
    by (simp add: degree_both_endpoints_def ent map_fst_zip_upt [OF lx] lx count_list_map_int
          count_list_upt)
  with deg show one: "\<forall>c<?n. count_list xs (int c) = 1" by auto
  have "count_list xs x \<le> 1" for x
  proof (cases "x \<in> set xs")
    case False
    then show ?thesis by simp
  next
    case True
    with v have "0 \<le> x" "nat x < ?n" by (auto simp: valid_cell_def)
    with one have "count_list xs (int (nat x)) = 1" by blast
    then show ?thesis using \<open>0 \<le> x\<close> by simp
  qed
  then show "distinct xs" by (rule distinct_count_list_le_1)
qed

text \<open>The second loop of \<open>MakeDirected\<close> writes the inverse of an injective table.\<close>

lemma MakeDirected_loop_inverse:
  assumes xs: "m_nMove b = Some xs" "length xs = m_nSize b" and n: "m_nSize b < 2147483648"
    and valid: "\<forall>i<m_nSize b. 0 \<le> xs ! i \<and> xs ! i < int (m_nSize b)"
    and inj: "distinct xs"
  shows "\<forall>i\<in>set is. i < m_nSize b \<Longrightarrow> distinct is \<Longrightarrow> length m2 = m_nSize b \<Longrightarrow>
    \<exists>m2'. MakeDirected_loop b is m2 = Inr m2' \<and> length m2' = m_nSize b \<and>
      (\<forall>i\<in>set is. m2' ! nat (xs ! i) = int i) \<and>
      (\<forall>j<m_nSize b. j \<notin> (\<lambda>i. nat (xs ! i)) ` set is \<longrightarrow> m2' ! j = m2 ! j)"
proof (induction "is" arbitrary: m2)
  case Nil
  then show ?case by simp
next
  case (Cons i rest)
  let ?n = "m_nSize b"
  from Cons.prems have i: "i < ?n" and rest: "\<forall>i\<in>set rest. i < ?n"
    and d: "distinct rest" "i \<notin> set rest" by simp_all
  have rd: "read_table (m_nMove b) (int i) = Inr (xs ! i)"
    using xs i by (simp add: read_table_nat)
  from valid i have v: "0 \<le> xs ! i" "xs ! i < int ?n" by simp_all
  then have r: "CellIndexInRange b (xs ! i)"
    using n by (simp add: CellIndexInRange_iff_valid valid_cell_def)
  have s: "s32 (int i) = int i" using i n by (simp add: s32_small)
  let ?m = "m2[nat (xs ! i) := int i]"
  have lm: "length ?m = ?n" using Cons.prems(3) by simp
  from Cons.IH [OF rest d(1) lm] obtain m2' where
    m: "MakeDirected_loop b rest ?m = Inr m2'" "length m2' = ?n"
      "\<forall>i\<in>set rest. m2' ! nat (xs ! i) = int i"
      "\<forall>j<?n. j \<notin> (\<lambda>i. nat (xs ! i)) ` set rest \<longrightarrow> m2' ! j = ?m ! j"
    by blast
  have fresh: "nat (xs ! i) \<notin> (\<lambda>i. nat (xs ! i)) ` set rest"
  proof
    assume "nat (xs ! i) \<in> (\<lambda>i. nat (xs ! i)) ` set rest"
    then obtain j where j: "j \<in> set rest" "nat (xs ! i) = nat (xs ! j)" by auto
    with rest have "j < ?n" by simp
    with valid v j(2) have "xs ! i = xs ! j" by (metis nat_eq_iff2)
    with inj i \<open>j < ?n\<close> xs(2) have "i = j" by (simp add: nth_eq_iff_index_eq)
    with j(1) d(2) show False by simp
  qed
  have here: "m2' ! nat (xs ! i) = int i"
    using m(4) fresh v Cons.prems(3) by simp
  show ?case
  proof (intro exI [of _ m2'] conjI ballI allI impI)
    show "MakeDirected_loop b (i # rest) m2 = Inr m2'" using rd r s m(1) by simp
    show "length m2' = ?n" by (rule m(2))
    show "m2' ! nat (xs ! k) = int k" if "k \<in> set (i # rest)" for k
      using that here m(3) by auto
    show "m2' ! j = m2 ! j" if "j < ?n" "j \<notin> (\<lambda>i. nat (xs ! i)) ` set (i # rest)" for j
    proof -
      from that have "j \<notin> (\<lambda>i. nat (xs ! i)) ` set rest" "j \<noteq> nat (xs ! i)" by auto
      with m(4) that(1) show ?thesis by simp
    qed
  qed
qed

text \<open>
  Following a table that is a permutation of its indices, every cell comes back.
\<close>

lemma follow_in: "0 \<le> c \<Longrightarrow> c < int (length xs) \<Longrightarrow> follow xs c = xs ! nat c"
  by (simp add: follow_def)

lemma follow_out: "\<not> (0 \<le> c \<and> c < int (length xs)) \<Longrightarrow> follow xs c = c"
  by (auto simp: follow_def)

lemma follow_valid:
  assumes valid: "\<forall>i<length xs. 0 \<le> xs ! i \<and> xs ! i < int (length xs)"
    and c: "0 \<le> c" "c < int (length xs)"
  shows "0 \<le> (follow xs ^^ m) c \<and> (follow xs ^^ m) c < int (length xs)"
proof (induction m)
  case 0
  then show ?case using c by simp
next
  case (Suc m)
  then have "nat ((follow xs ^^ m) c) < length xs" by auto
  with valid have "0 \<le> xs ! nat ((follow xs ^^ m) c) \<and>
      xs ! nat ((follow xs ^^ m) c) < int (length xs)" by blast
  then show ?case using Suc by (simp add: follow_in)
qed

lemma inj_follow:
  assumes valid: "\<forall>i<length xs. 0 \<le> xs ! i \<and> xs ! i < int (length xs)"
    and inj: "distinct xs"
  shows "inj (follow xs)"
proof (rule injI)
  fix x y assume e: "follow xs x = follow xs y"
  let ?in = "\<lambda>c. 0 \<le> c \<and> c < int (length xs)"
  have img: "?in (follow xs c)" if "?in c" for c
  proof -
    from that have "nat c < length xs" by auto
    with valid have "0 \<le> xs ! nat c \<and> xs ! nat c < int (length xs)" by blast
    then show ?thesis using that by (simp add: follow_in)
  qed
  show "x = y"
  proof (cases "?in x")
    case True
    then have "?in (follow xs x)" by (rule img)
    with e have "?in y" by (cases "?in y") (auto simp: follow_out)
    with True e have "xs ! nat x = xs ! nat y" by (simp add: follow_in)
    moreover have "nat x < length xs" "nat y < length xs" using True \<open>?in y\<close> by auto
    ultimately have "nat x = nat y" using inj by (simp add: nth_eq_iff_index_eq)
    then show ?thesis using True \<open>?in y\<close> by arith
  next
    case False
    then have fx: "follow xs x = x" by (rule follow_out)
    have "\<not> ?in y"
    proof
      assume "?in y"
      then have "?in (follow xs y)" by (rule img)
      with e fx False show False by simp
    qed
    then have "follow xs y = y" by (rule follow_out)
    with e fx show ?thesis by simp
  qed
qed

lemma follow_returns:
  assumes valid: "\<forall>i<length xs. 0 \<le> xs ! i \<and> xs ! i < int (length xs)"
    and inj: "distinct xs"
    and c: "0 \<le> c" "c < int (length xs)"
  obtains k where "0 < k" "(follow xs ^^ k) c = c"
proof -
  have "{y. \<exists>m. y = (follow xs ^^ m) c} \<subseteq> {0..<int (length xs)}"
    using follow_valid [OF valid c] by auto
  then have "finite {y. \<exists>m. y = (follow xs ^^ m) c}" by (rule finite_subset) simp
  with inj_follow [OF valid inj] show thesis
    by (rule funpow_inj_finite) (rule that)
qed

text \<open>
  The inner loop of \<open>MakeUndirected\<close> on a directed board whose secondary table
  is the inverse of its primary table: it ends when the walk is back at
  \<open>start\<close>, and has then copied the primary entries of the cells it passed.
\<close>

lemma copied_update:
  assumes "length temp = length xs" "\<forall>i<length xs. temp ! i = UNUSED \<or> temp ! i = xs ! i"
    "v = xs ! k"
  shows "\<forall>i<length xs. temp[k := v] ! i = UNUSED \<or> temp[k := v] ! i = xs ! i"
proof (intro allI impI)
  fix i assume "i < length xs"
  then show "temp[k := v] ! i = UNUSED \<or> temp[k := v] ! i = xs ! i"
    using assms by (cases "i = k") simp_all
qed

lemma copied_update_mono:
  assumes "length temp = length xs" "v = xs ! k"
  shows "\<forall>i<length xs. temp ! i = xs ! i \<longrightarrow> temp[k := v] ! i = xs ! i"
proof (intro allI impI)
  fix i assume "i < length xs" "temp ! i = xs ! i"
  then show "temp[k := v] ! i = xs ! i"
    using assms by (cases "i = k") simp_all
qed

lemma MakeUndirected_walk_returns:
  assumes d: "m_nMove d = Some xs" "m_nMove2 d = Some ys" "m_nSize d = length xs"
      "length xs < 2147483648" "length ys = length xs"
    and valid: "\<forall>i<length xs. 0 \<le> xs ! i \<and> xs ! i < int (length xs)"
    and inv: "\<forall>i<length xs. ys ! nat (xs ! i) = int i"
    and start: "start < length xs"
  shows "(follow xs ^^ r) cur = int start \<Longrightarrow> 0 \<le> prev \<Longrightarrow> prev < int (length xs) \<Longrightarrow>
    cur = xs ! nat prev \<Longrightarrow> length temp = length xs \<Longrightarrow>
    \<forall>i<length xs. temp ! i = UNUSED \<or> temp ! i = xs ! i \<Longrightarrow>
    \<exists>temp' prev'. MakeUndirected_walk d start temp prev cur
        = Some (Inr (temp', prev', int start)) \<and>
      0 \<le> prev' \<and> prev' < int (length xs) \<and> xs ! nat prev' = int start \<and>
      length temp' = length xs \<and>
      (\<forall>i<length xs. temp' ! i = UNUSED \<or> temp' ! i = xs ! i) \<and>
      (\<forall>i<length xs. temp ! i = xs ! i \<longrightarrow> temp' ! i = xs ! i) \<and>
      (cur \<noteq> int start \<longrightarrow> temp' ! nat prev = xs ! nat prev) \<and>
      (cur = int start \<longrightarrow> prev' = prev \<and> temp' = temp)"
proof (induction r arbitrary: temp prev cur)
  case 0
  then have c: "cur = int start" by simp
  then have u: "u32 cur = int start" using start d(4) by (simp add: u32_def)
  have "MakeUndirected_walk d start temp prev cur = Some (Inr (temp, prev, cur))"
    by (subst MakeUndirected_walk.simps) (simp add: u)
  with 0 c show ?case by simp
next
  case (Suc r)
  let ?n = "length xs"
  show ?case
  proof (cases "cur = int start")
    case True
    then have u: "u32 cur = int start" using start d(4) by (simp add: u32_def)
    have "MakeUndirected_walk d start temp prev cur = Some (Inr (temp, prev, cur))"
      by (subst MakeUndirected_walk.simps) (simp add: u)
    with Suc.prems True show ?thesis by simp
  next
    case False
    from Suc.prems(2,3) have p: "nat prev < ?n" by auto
    with valid Suc.prems(4) have c: "0 \<le> cur" "cur < int ?n" by simp_all
    then have nc: "nat cur < ?n" by auto
    have r: "CellIndexInRange d cur"
      using c d(3,4) by (simp add: CellIndexInRange_iff_valid valid_cell_def)
    have u: "u32 cur \<noteq> int start" using False c d(4) by (simp add: u32_def)
    let ?t1 = "temp[nat prev := cur]"
    have wr: "write_list temp prev cur = Inr ?t1"
      using Suc.prems(2,3,5) by (simp add: write_list_def)
    have rd: "read_table (m_nMove d) cur = Inr (xs ! nat cur)"
      using c by (simp add: d(1) read_table_Some)
    have rd2: "read_table (m_nMove2 d) cur = Inr (ys ! nat cur)"
      using c d(5) by (simp add: d(2) read_table_Some)
    have "ys ! nat cur = prev" using inv p Suc.prems(2,4) by simp
    then have step: "MakeUndirected_walk d start temp prev cur
        = MakeUndirected_walk d start ?t1 cur (xs ! nat cur)"
      using r u wr rd rd2 by (subst MakeUndirected_walk.simps) simp
    have fc: "follow xs cur = xs ! nat cur" using c by (rule follow_in)
    have "(follow xs ^^ r) (follow xs cur) = int start"
      using Suc.prems(1) by (simp add: funpow_swap1)
    then have 1: "(follow xs ^^ r) (xs ! nat cur) = int start" by (simp add: fc)
    have 5: "length ?t1 = ?n" using Suc.prems(5) by simp
    have 6: "\<forall>i<?n. ?t1 ! i = UNUSED \<or> ?t1 ! i = xs ! i"
      using Suc.prems(5,6,4) by (rule copied_update)
    from Suc.IH [OF 1 c(1) c(2) refl 5 6] obtain temp' prev' where
      ih: "MakeUndirected_walk d start ?t1 cur (xs ! nat cur)
            = Some (Inr (temp', prev', int start))"
        "0 \<le> prev'" "prev' < int ?n" "xs ! nat prev' = int start" "length temp' = ?n"
        "\<forall>i<?n. temp' ! i = UNUSED \<or> temp' ! i = xs ! i"
        "\<forall>i<?n. ?t1 ! i = xs ! i \<longrightarrow> temp' ! i = xs ! i"
      by blast
    have mono: "\<forall>i<?n. temp ! i = xs ! i \<longrightarrow> temp' ! i = xs ! i"
    proof (intro allI impI)
      fix i assume i: "i < ?n" "temp ! i = xs ! i"
      then have "?t1 ! i = xs ! i"
        using copied_update_mono [OF Suc.prems(5,4)] by simp
      with ih(7) i(1) show "temp' ! i = xs ! i" by simp
    qed
    have "?t1 ! nat prev = xs ! nat prev" using p Suc.prems(4,5) by simp
    with ih(7) p have here: "temp' ! nat prev = xs ! nat prev" by simp
    show ?thesis
      unfolding step using ih(1-6) mono here False by blast
  qed
qed

text \<open>The outer loop fills \<open>temp\<close> with the primary table.\<close>

lemma MakeUndirected_loop_returns:
  assumes d: "m_nMove d = Some xs" "m_nMove2 d = Some ys" "m_nSize d = length xs"
      "length xs < 2147483648" "length ys = length xs"
    and valid: "\<forall>i<length xs. 0 \<le> xs ! i \<and> xs ! i < int (length xs)"
    and inj: "distinct xs"
    and inv: "\<forall>i<length xs. ys ! nat (xs ! i) = int i"
  shows "\<forall>s\<in>set starts. s < length xs \<Longrightarrow> length temp = length xs \<Longrightarrow>
    \<forall>i<length xs. temp ! i = UNUSED \<or> temp ! i = xs ! i \<Longrightarrow>
    \<exists>temp'. MakeUndirected_loop d starts temp = Some (Inr temp') \<and>
      length temp' = length xs \<and>
      (\<forall>i<length xs. temp' ! i = UNUSED \<or> temp' ! i = xs ! i) \<and>
      (\<forall>i<length xs. temp ! i = xs ! i \<longrightarrow> temp' ! i = xs ! i) \<and>
      (\<forall>s\<in>set starts. temp' ! s = xs ! s)"
proof (induction starts arbitrary: temp)
  case Nil
  then show ?case by simp
next
  case (Cons start rest)
  let ?n = "length xs"
  from Cons.prems(1) have s: "start < ?n" and rest: "\<forall>s\<in>set rest. s < ?n" by simp_all
  show ?case
  proof (cases "temp ! start = UNUSED")
    case False
    with Cons.prems(3) s have here: "temp ! start = xs ! start" by blast
    from Cons.IH [OF rest Cons.prems(2,3)] obtain temp' where
      t: "MakeUndirected_loop d rest temp = Some (Inr temp')" "length temp' = ?n"
        "\<forall>i<?n. temp' ! i = UNUSED \<or> temp' ! i = xs ! i"
        "\<forall>i<?n. temp ! i = xs ! i \<longrightarrow> temp' ! i = xs ! i"
        "\<forall>s\<in>set rest. temp' ! s = xs ! s"
      by blast
    from t(4) s here have "temp' ! start = xs ! start" by simp
    with t False show ?thesis by simp
  next
    case True
    have rd: "read_table (m_nMove d) (int start) = Inr (xs ! start)"
      using s by (simp add: d(1) read_table_nat)
    have s32: "s32 (int start) = int start" using s d(4) by (simp add: s32_small)
    have si: "0 \<le> int start" "int start < int ?n" using s by simp_all
    from follow_returns [OF valid inj si] obtain k where
      k: "0 < k" "(follow xs ^^ k) (int start) = int start" by blast
    then obtain r where kr: "k = Suc r" by (cases k) simp_all
    have "(follow xs ^^ r) (follow xs (int start)) = int start"
      using k(2) unfolding kr by (simp add: funpow_swap1)
    then have 1: "(follow xs ^^ r) (xs ! start) = int start"
      using si by (simp add: follow_in)
    have 4: "xs ! start = xs ! nat (int start)" by simp
    from MakeUndirected_walk_returns [OF d valid inv s 1 si 4 Cons.prems(2,3)]
    obtain temp1 prev' where
      w: "MakeUndirected_walk d start temp (int start) (xs ! start)
            = Some (Inr (temp1, prev', int start))"
        "0 \<le> prev'" "prev' < int ?n" "xs ! nat prev' = int start" "length temp1 = ?n"
        "\<forall>i<?n. temp1 ! i = UNUSED \<or> temp1 ! i = xs ! i"
        "\<forall>i<?n. temp ! i = xs ! i \<longrightarrow> temp1 ! i = xs ! i"
        "xs ! start \<noteq> int start \<longrightarrow> temp1 ! nat (int start) = xs ! nat (int start)"
        "xs ! start = int start \<longrightarrow> prev' = int start \<and> temp1 = temp"
      by blast
    have r: "CellIndexInRange d prev'" "CellIndexInRange d (int start)"
      using w(2,3) s d(3,4) by (simp_all add: CellIndexInRange_iff_valid valid_cell_def)
    let ?t2 = "temp1[nat prev' := int start]"
    from w(2,3) have p: "nat prev' < ?n" by auto
    have 5: "length ?t2 = ?n" using w(5) by simp
    have 6: "\<forall>i<?n. ?t2 ! i = UNUSED \<or> ?t2 ! i = xs ! i"
      using w(5,6) w(4) [symmetric] by (rule copied_update)
    have m12: "\<forall>i<?n. temp1 ! i = xs ! i \<longrightarrow> ?t2 ! i = xs ! i"
      using w(5) w(4) [symmetric] by (rule copied_update_mono)
    have here: "?t2 ! start = xs ! start"
    proof (cases "xs ! start = int start")
      case True
      with w(9) have "prev' = int start" by simp
      then show ?thesis using True s w(5) by simp
    next
      case False
      with w(8) have "temp1 ! start = xs ! start" by simp
      with m12 s show ?thesis by simp
    qed
    from Cons.IH [OF rest 5 6] obtain temp' where
      t: "MakeUndirected_loop d rest ?t2 = Some (Inr temp')" "length temp' = ?n"
        "\<forall>i<?n. temp' ! i = UNUSED \<or> temp' ! i = xs ! i"
        "\<forall>i<?n. ?t2 ! i = xs ! i \<longrightarrow> temp' ! i = xs ! i"
        "\<forall>s\<in>set rest. temp' ! s = xs ! s"
      by blast
    have run: "MakeUndirected_loop d (start # rest) temp = Some (Inr temp')"
      using True rd s32 w(1) r t(1) by simp
    have mono: "\<forall>i<?n. temp ! i = xs ! i \<longrightarrow> temp' ! i = xs ! i"
      using w(7) m12 t(4) by blast
    have "temp' ! start = xs ! start" using t(4) here s by simp
    with run t(2,3,5) mono show ?thesis by simp
  qed
qed

text \<open>\<open>MakeDirected\<close> on an undirected tourney: the secondary table is the inverse.\<close>

lemma MakeDirected_tourney:
  assumes wf: "wf_board b" and und: "IsUndirected b" and t: "IsTourney b = Inr True"
    and xs: "m_nMove b = Some xs"
  shows "\<exists>ys. MakeDirected b = Inr (b\<lparr>m_nMove2 := Some ys\<rparr>) \<and> length ys = m_nSize b \<and>
    (\<forall>i<m_nSize b. ys ! nat (xs ! i) = int i) \<and>
    (\<forall>j<m_nSize b. 0 \<le> ys ! j \<and> ys ! j < int (m_nSize b)) \<and> distinct ys"
proof -
  let ?n = "m_nSize b"
  from wf xs have lx: "length xs = ?n" by (auto dest: wf_board_primaryD)
  from wf have n: "?n < 2147483648" by (simp add: wf_board_def)
  note perm = undirected_tourney_permutation [OF wf und t xs]
  have "\<forall>i\<in>set [0..<?n]. i < ?n" "distinct [0..<?n]" "length (replicate ?n UNUSED) = ?n"
    by simp_all
  from MakeDirected_loop_inverse [OF xs lx n perm(1,2) this] obtain ys where
    ys: "MakeDirected_loop b [0..<?n] (replicate ?n UNUSED) = Inr ys" "length ys = ?n"
      "\<forall>i\<in>set [0..<?n]. ys ! nat (xs ! i) = int i"
    by blast
  then have inv: "\<forall>i<?n. ys ! nat (xs ! i) = int i" by simp
  have pre: "\<exists>i<?n. xs ! i = int j" if "j < ?n" for j
  proof -
    from perm(3) that have "count_list xs (int j) \<noteq> 0" by simp
    then have "int j \<in> set xs" by (simp add: count_list_0_iff)
    then show ?thesis using lx by (auto simp: in_set_conv_nth)
  qed
  have val: "\<forall>j<?n. 0 \<le> ys ! j \<and> ys ! j < int ?n"
  proof (intro allI impI)
    fix j assume "j < ?n"
    from pre [OF this] obtain i where i: "i < ?n" "xs ! i = int j" by blast
    with inv have "ys ! j = int i" by force
    with i(1) show "0 \<le> ys ! j \<and> ys ! j < int ?n" by simp
  qed
  have "distinct ys"
    unfolding distinct_conv_nth
  proof (intro allI impI)
    fix j k assume jk: "j < length ys" "k < length ys" "j \<noteq> k"
    from pre [of j] jk ys(2) obtain i where i: "i < ?n" "xs ! i = int j" by auto
    from pre [of k] jk ys(2) obtain l where l: "l < ?n" "xs ! l = int k" by auto
    from inv i have "ys ! j = int i" by force
    moreover from inv l have "ys ! k = int l" by force
    moreover have "i \<noteq> l" using i l jk(3) by auto
    ultimately show "ys ! j \<noteq> ys ! k" by simp
  qed
  with ys(1,2) inv val und show ?thesis
    by (intro exI [of _ ys]) (simp add: MakeDirected_def bind_err_def)
qed

text \<open>The directed board so made is a tourney, and \<open>MakeUndirected\<close> gives the board back.\<close>

lemma MakeUndirected_inverse_tables:
  assumes wf: "wf_board b" and und: "IsUndirected b" and t: "IsTourney b = Inr True"
    and xs: "m_nMove b = Some xs"
    and ys: "length ys = m_nSize b" "\<forall>i<m_nSize b. ys ! nat (xs ! i) = int i"
      "\<forall>j<m_nSize b. 0 \<le> ys ! j \<and> ys ! j < int (m_nSize b)" "distinct ys"
  shows "MakeUndirected (b\<lparr>m_nMove2 := Some ys\<rparr>) = Some (Inr b)"
proof -
  let ?n = "m_nSize b"
  let ?d = "b\<lparr>m_nMove2 := Some ys\<rparr>"
  from wf xs have lx: "length xs = ?n" by (auto dest: wf_board_primaryD)
  from wf have n: "?n < 2147483648" by (simp add: wf_board_def)
  note perm = undirected_tourney_permutation [OF wf und t xs]
  have dir: "IsDirected ?d" by (simp add: IsDirected_def IsUndirected_def)
  have wy: "wf_table ?n ys"
    using ys(1,3) by (auto simp: wf_table_def list_all_length)
  have wfd: "wf_board ?d" using wf wy xs by (auto simp: wf_board_def)
  have ent: "table_entries ?d = zip [0..<?n] xs @ zip [0..<?n] ys"
    by (simp add: table_entries_def xs lx ys(1))
  have vx: "\<forall>v\<in>set xs. valid_cell ?d v"
    using perm(1) lx by (auto simp: valid_cell_def in_set_conv_nth)
  have vy: "\<forall>v\<in>set ys. valid_cell ?d v"
    using ys(1,3) by (auto simp: valid_cell_def in_set_conv_nth)
  have av: "all_entries_valid ?d"
    using vx vy
    by (simp add: all_entries_valid_def ent list_all_snd_zip_upt [OF lx]
          list_all_snd_zip_upt [OF ys(1)])
  have deg: "degree_destinations ?d (int c) = 2" if "c < ?n" for c
  proof -
    have "int c \<in> set ys"
    proof -
      from perm(1) that have "nat (xs ! c) < length ys" using ys(1) by auto
      then have "ys ! nat (xs ! c) \<in> set ys" by (rule nth_mem)
      with ys(2) that show ?thesis by simp
    qed
    with ys(4) have "count_list ys (int c) = 1" by (rule count_list_distinct)
    moreover have "count_list xs (int c) = 1" using perm(3) that by simp
    ultimately show ?thesis by (simp add: degree_destinations_def ent lx ys(1))
  qed
  have tour: "IsTourney ?d = Inr True"
    using IsTourney_directed_wf [OF wfd dir] av deg by simp
  have d: "m_nMove ?d = Some xs" "m_nMove2 ?d = Some ys" "m_nSize ?d = length xs"
    "length xs < 2147483648" "length ys = length xs"
    using xs lx n ys(1) by simp_all
  have valid: "\<forall>i<length xs. 0 \<le> xs ! i \<and> xs ! i < int (length xs)"
    using perm(1) lx by simp
  have inv: "\<forall>i<length xs. ys ! nat (xs ! i) = int i" using ys(2) lx by simp
  have "\<forall>s\<in>set [0..<?n]. s < length xs" "length (replicate ?n UNUSED) = length xs"
    "\<forall>i<length xs. replicate ?n UNUSED ! i = UNUSED \<or> replicate ?n UNUSED ! i = xs ! i"
    using lx by simp_all
  from MakeUndirected_loop_returns [OF d valid perm(2) inv this] obtain temp where
    temp: "MakeUndirected_loop ?d [0..<?n] (replicate ?n UNUSED) = Some (Inr temp)"
      "length temp = length xs" "\<forall>s\<in>set [0..<?n]. temp ! s = xs ! s"
    by blast
  have "temp = xs" using temp(2,3) lx by (intro nth_equalityI) simp_all
  with temp(1) have loop: "MakeUndirected_loop ?d [0..<m_nSize ?d] (replicate (m_nSize ?d) UNUSED)
      = Some (Inr xs)" by simp
  from und have m2: "m_nMove2 b = None" by (simp add: IsUndirected_def)
  have same: "?d\<lparr>m_nMove := Some xs, m_nMove2 := None\<rparr> = b"
    using xs m2 by (cases b) simp
  show ?thesis
    unfolding MakeUndirected_def using dir tour loop same by simp
qed

text \<open>
  C3. For every undirected board whose moves satisfy \<open>IsTourney()\<close>,
  \<open>MakeDirected()\<close> and then \<open>MakeUndirected()\<close> return, and yield an undirected
  board with the same undirected edges as before, on which \<open>IsTourney()\<close> is
  still true. (The board is the same as before, slot by slot.)
\<close>

theorem MakeDirected_MakeUndirected_round_trip:
  assumes "wf_board b" and "IsUndirected b" and "IsTourney b = Inr True"
  shows "\<exists>d b'. MakeDirected b = Inr d \<and> IsDirected d \<and>
    MakeUndirected d = Some (Inr b') \<and> IsUndirected b' \<and>
    recorded_edges b' = recorded_edges b \<and> IsTourney b' = Inr True \<and> b' = b"
proof -
  from assms(1) obtain xs where xs: "m_nMove b = Some xs" using wf_board_has_primary by blast
  from MakeDirected_tourney [OF assms xs] obtain ys where
    ys: "MakeDirected b = Inr (b\<lparr>m_nMove2 := Some ys\<rparr>)" "length ys = m_nSize b"
      "\<forall>i<m_nSize b. ys ! nat (xs ! i) = int i"
      "\<forall>j<m_nSize b. 0 \<le> ys ! j \<and> ys ! j < int (m_nSize b)" "distinct ys"
    by blast
  have "IsDirected (b\<lparr>m_nMove2 := Some ys\<rparr>)" by (simp add: IsDirected_def IsUndirected_def)
  moreover have "MakeUndirected (b\<lparr>m_nMove2 := Some ys\<rparr>) = Some (Inr b)"
    using assms xs ys(2-5) by (rule MakeUndirected_inverse_tables)
  ultimately show ?thesis using ys(1) assms(2,3) by blast
qed

theorem MakeDirected_MakeUndirected_round_trip_witness:
  "wf_board (undirected_2x2 [1, 0, 3, 2]) \<and> IsUndirected (undirected_2x2 [1, 0, 3, 2]) \<and>
   IsTourney (undirected_2x2 [1, 0, 3, 2]) = Inr True \<and>
   MakeDirected (undirected_2x2 [1, 0, 3, 2]) = Inr (directed_2x2 [1, 0, 3, 2] [1, 0, 3, 2]) \<and>
   MakeUndirected (directed_2x2 [1, 0, 3, 2] [1, 0, 3, 2]) = Some (Inr (undirected_2x2 [1, 0, 3, 2])) \<and>
   recorded_edges (undirected_2x2 [1, 0, 3, 2]) = {{0, 1}, {2, 3}}"
proof -
  let ?u = "undirected_2x2 [1, 0, 3, 2]" and ?d = "directed_2x2 [1, 0, 3, 2] [1, 0, 3, 2]"
  have w: "wf_board ?u" by (simp add: wf_undirected_2x2 wf_table_4)
  have u: "IsUndirected ?u" by (rule IsUndirected_undirected_2x2)
  have t: "IsTourney ?u = Inr True" by code_simp
  have md: "MakeDirected ?u = Inr ?d" by code_simp
  from MakeDirected_MakeUndirected_round_trip [OF w u t] md
  have mu: "MakeUndirected ?d = Some (Inr ?u)"
    by (auto simp: undirected_2x2_def directed_2x2_def)
  have e: "table_entries ?u = [(0, 1), (1, 0), (2, 3), (3, 2)]"
    by (simp add: table_entries_def undirected_2x2_def upt_4)
  have v: "valid_cell ?u c \<longleftrightarrow> 0 \<le> c \<and> c < 4" for c
    by (simp add: valid_cell_def undirected_2x2_def)
  have r: "recorded_edges ?u = {{0, 1}, {2, 3}}"
    by (simp add: recorded_edges_def e v) auto
  from w u t md mu r show ?thesis by blast
qed

end
